theory Spec2Isabelle
  imports Main "HOL-Library.AList" "HOL-Library.Multiset" "HOL-Library.Char_ord"
    "HOL-Library.List_Lexorder"
begin

section \<open>Strings\<close>

text \<open>
  Python strings are modelled as \<open>string\<close>, lists of 8-bit characters: a character is a
  code point from U+0000 to U+00FF, and the development covers the strings over these
  code points. The string methods used by \<^verbatim>\<open>app/main.py\<close> are written out below as
  Python defines them on that range.
\<close>

definition whitespace :: "char list" where
  \<comment> \<open>the characters for which \<^verbatim>\<open>str.isspace\<close> holds, which \<^verbatim>\<open>strip()\<close> and
      \<^verbatim>\<open>lstrip()\<close> remove: the ASCII blanks and separators, U+0085 and U+00A0\<close>
  "whitespace = [CHR 0x09, CHR 0x0A, CHR 0x0B, CHR 0x0C, CHR 0x0D,
                 CHR 0x1C, CHR 0x1D, CHR 0x1E, CHR 0x1F, CHR 0x20,
                 CHR 0x85, CHR 0xA0]"

definition lstrip :: "string \<Rightarrow> string" where
  "lstrip s = dropWhile (\<lambda>c. c \<in> set whitespace) s"

definition lstrip_chars :: "string \<Rightarrow> string \<Rightarrow> string" where
  \<comment> \<open>\<^verbatim>\<open>s.lstrip(chars)\<close>\<close>
  "lstrip_chars chars s = dropWhile (\<lambda>c. c \<in> set chars) s"

definition strip :: "string \<Rightarrow> string" where
  "strip s = rev (lstrip (rev (lstrip s)))"

definition uppercase :: "char list" where
  \<comment> \<open>the characters that \<^verbatim>\<open>str.lower\<close> changes: A to Z, U+00C0 to U+00D6 and
      U+00D8 to U+00DE\<close>
  "uppercase =
     ''ABCDEFGHIJKLMNOPQRSTUVWXYZ'' @
     [CHR 0xC0, CHR 0xC1, CHR 0xC2, CHR 0xC3, CHR 0xC4, CHR 0xC5, CHR 0xC6, CHR 0xC7,
      CHR 0xC8, CHR 0xC9, CHR 0xCA, CHR 0xCB, CHR 0xCC, CHR 0xCD, CHR 0xCE, CHR 0xCF,
      CHR 0xD0, CHR 0xD1, CHR 0xD2, CHR 0xD3, CHR 0xD4, CHR 0xD5, CHR 0xD6,
      CHR 0xD8, CHR 0xD9, CHR 0xDA, CHR 0xDB, CHR 0xDC, CHR 0xDD, CHR 0xDE]"

definition lowercase :: "char list" where
  \<comment> \<open>their lower-case forms, 32 code points higher, in the same order\<close>
  "lowercase =
     ''abcdefghijklmnopqrstuvwxyz'' @
     [CHR 0xE0, CHR 0xE1, CHR 0xE2, CHR 0xE3, CHR 0xE4, CHR 0xE5, CHR 0xE6, CHR 0xE7,
      CHR 0xE8, CHR 0xE9, CHR 0xEA, CHR 0xEB, CHR 0xEC, CHR 0xED, CHR 0xEE, CHR 0xEF,
      CHR 0xF0, CHR 0xF1, CHR 0xF2, CHR 0xF3, CHR 0xF4, CHR 0xF5, CHR 0xF6,
      CHR 0xF8, CHR 0xF9, CHR 0xFA, CHR 0xFB, CHR 0xFC, CHR 0xFD, CHR 0xFE]"

definition lower_char :: "char \<Rightarrow> char" where
  "lower_char c = (case map_of (zip uppercase lowercase) c of None \<Rightarrow> c | Some l \<Rightarrow> l)"

definition lower :: "string \<Rightarrow> string" where
  "lower s = map lower_char s"

definition startswith :: "string \<Rightarrow> string \<Rightarrow> bool" where
  "startswith s p = (take (length p) s = p)"

definition numeric_chars :: "char list" where
  \<comment> \<open>the characters with a numeric value: the decimal digits, the superscripts U+00B2,
      U+00B3, U+00B9 and the fractions U+00BC, U+00BD, U+00BE\<close>
  "numeric_chars =
     ''0123456789'' @ [CHR 0xB2, CHR 0xB3, CHR 0xB9, CHR 0xBC, CHR 0xBD, CHR 0xBE]"

definition isnumeric :: "string \<Rightarrow> bool" where
  \<comment> \<open>\<^verbatim>\<open>str.isnumeric\<close>: at least one character and all of them numeric\<close>
  "isnumeric s = (s \<noteq> [] \<and> list_all (\<lambda>c. c \<in> set numeric_chars) s)"

section \<open>Errors\<close>

datatype py_error =
    AssertionError
  | IndexError
  | KeyError
  | ValueError
  | AttributeError
  | ElementIdNotNumeric string string
      \<comment> \<open>\<^verbatim>\<open>Exception('<Type> element id must be numeric: <id>')\<close>\<close>
  | UnknownFilterFormat string
      \<comment> \<open>\<^verbatim>\<open>Exception('Unknown element filter format: <id>')\<close>\<close>
  | ExternalError string
      \<comment> \<open>an exception raised inside a collaborator (service client, file system)\<close>

section \<open>Element filters: \<^verbatim>\<open>build_element_ids_dict\<close>\<close>

datatype filter_mode = Include | Exclude

datatype element_type = Node | Way | Relation

text \<open>
  The result dictionary has the fixed keys \<^verbatim>\<open>'include'\<close>/\<^verbatim>\<open>'exclude'\<close> and, below each,
  \<^verbatim>\<open>'node'\<close>/\<^verbatim>\<open>'way'\<close>/\<^verbatim>\<open>'relation'\<close>; it is a total table over the two enumerations.
\<close>

type_synonym element_ids = "filter_mode \<Rightarrow> element_type \<Rightarrow> string set"

definition empty_element_ids :: element_ids where
  "empty_element_ids = (\<lambda>_ _. {})"

definition prefixes :: "(element_type \<times> string list) list" where
  "prefixes =
     [(Node, [''nodes'', ''node'', ''n'']),
      (Way, [''ways'', ''way'', ''w'']),
      (Relation, [''relations'', ''relation'', ''rel'', ''r''])]"

fun first_prefix :: "string list \<Rightarrow> string \<Rightarrow> string option" where
  \<comment> \<open>the inner \<^verbatim>\<open>for prefix in value\<close>: the first prefix the token starts with\<close>
  "first_prefix [] element_id = None"
| "first_prefix (prefix # rest) element_id =
     (if startswith element_id prefix then Some prefix else first_prefix rest element_id)"

fun find_prefix :: "(element_type \<times> string list) list \<Rightarrow> string
    \<Rightarrow> (element_type \<times> string) option" where
  \<comment> \<open>the outer \<^verbatim>\<open>for element_type, value in prefixes.items()\<close>, left by \<^verbatim>\<open>break\<close>
      at the first match\<close>
  "find_prefix [] element_id = None"
| "find_prefix ((element_type, value) # rest) element_id =
     (case first_prefix value element_id of
        Some prefix \<Rightarrow> Some (element_type, prefix)
      | None \<Rightarrow> find_prefix rest element_id)"

definition strip_sign :: "string \<Rightarrow> filter_mode \<times> string" where
  \<comment> \<open>the normalisation of a token and the choice of \<^verbatim>\<open>element_result\<close>\<close>
  "strip_sign token =
     (let element_id = lower (strip token)
      in if startswith element_id ''-''
         then (Exclude, lstrip (lstrip_chars ''-'' element_id))
         else (Include, lstrip (lstrip_chars ''+'' element_id)))"

definition title :: "element_type \<Rightarrow> string" where
  \<comment> \<open>\<^verbatim>\<open>element_type.title()\<close> in the error message\<close>
  "title element_type =
     (case element_type of Node \<Rightarrow> ''Node'' | Way \<Rightarrow> ''Way'' | Relation \<Rightarrow> ''Relation'')"

definition parse_element_id :: "string \<Rightarrow> py_error + (filter_mode \<times> element_type \<times> string)" where
  \<comment> \<open>one iteration of the loop over \<^verbatim>\<open>element_ids\<close>, up to the \<^verbatim>\<open>add\<close>\<close>
  "parse_element_id token =
     (case strip_sign token of (mode, element_id) \<Rightarrow>
        (case find_prefix prefixes element_id of
           None \<Rightarrow> Inl (UnknownFilterFormat element_id)
         | Some (element_type, prefix) \<Rightarrow>
             (let element_id = lstrip (lstrip_chars '':;.,'' (drop (length prefix) element_id))
              in if \<not> isnumeric element_id
                 then Inl (ElementIdNotNumeric (title element_type) element_id)
                 else Inr (mode, element_type, element_id))))"

definition add_id :: "element_ids \<Rightarrow> filter_mode \<times> element_type \<times> string \<Rightarrow> element_ids" where
  \<comment> \<open>\<^verbatim>\<open>element_result[element_type].add(element_id)\<close>\<close>
  "add_id result x =
     (case x of (mode, element_type, element_id) \<Rightarrow>
        result(mode := (result mode)
                 (element_type := insert element_id (result mode element_type))))"

fun build_from :: "element_ids \<Rightarrow> string list \<Rightarrow> py_error + element_ids" where
  "build_from result [] = Inr result"
| "build_from result (token # rest) =
     (case parse_element_id token of
        Inl e \<Rightarrow> Inl e
      | Inr x \<Rightarrow> build_from (add_id result x) rest)"

definition build_element_ids_dict :: "string list \<Rightarrow> py_error + element_ids" where
  "build_element_ids_dict element_ids = build_from empty_element_ids element_ids"

section \<open>Merging diffs: \<^verbatim>\<open>merge_and_sort_diffs\<close>\<close>

text \<open>
  Modelled from the spec: \<^verbatim>\<open>DiffEntry\<close> (module \<^verbatim>\<open>diff_entry\<close> is not part of the
  sources). The specification lists a reference to the element, its versions, a timestamp
  and a changeset id; \<^verbatim>\<open>merge_and_sort_diffs\<close> reads the timestamp only. The record keeps
  the element reference, the number of the version the entry produced, the timestamp and
  the changeset id.
\<close>

record DiffEntry =
  timestamp :: int
  changeset_id :: nat
  version :: nat
  ref :: "element_type \<times> nat"

text \<open>
  A \<^verbatim>\<open>dict[str, list[DiffEntry]]\<close> is an association list in insertion order; Python
  dictionaries have distinct keys (\<open>wf_dict\<close>). The function is written out twice. First
  on values (\<open>diff\<close>): the lists of the dictionaries are values, which is what the code
  computes when no list object of the first dictionary occurs a second time in the input,
  as for the diffs that \<^verbatim>\<open>main\<close> collects from separate retrievals. Then on references
  (\<open>diff_refs\<close>): the dictionaries hold references to list objects in a store, and
  \<^verbatim>\<open>+=\<close> extends the list object of the first dictionary in place, whoever else refers
  to it.
\<close>

type_synonym diff = "(string \<times> DiffEntry list) list"

definition entries_of :: "string \<Rightarrow> diff \<Rightarrow> DiffEntry list" where
  \<comment> \<open>the list a diff holds for an element type; empty when the type is no key of it\<close>
  "entries_of element_type d = (case map_of d element_type of None \<Rightarrow> [] | Some l \<Rightarrow> l)"

definition wf_dict :: "('k \<times> 'v) list \<Rightarrow> bool" where
  "wf_dict d = distinct (map fst d)"

definition sorted_reverse :: "('a \<Rightarrow> int) \<Rightarrow> 'a list \<Rightarrow> 'a list" where
  \<comment> \<open>\<^verbatim>\<open>sorted(xs, key=key, reverse=True)\<close>: a stable sort, descending; elements with
      equal keys keep their original order\<close>
  "sorted_reverse key xs = rev (sort_key key (rev xs))"

fun add_elements :: "diff \<Rightarrow> diff \<Rightarrow> py_error + diff" where
  \<comment> \<open>\<^verbatim>\<open>for element_type, elements in diff.items(): result[element_type] += elements\<close>\<close>
  "add_elements result [] = Inr result"
| "add_elements result ((element_type, elements) # rest) =
     (case map_of result element_type of
        None \<Rightarrow> Inl KeyError
      | Some old \<Rightarrow> add_elements (AList.update element_type (old @ elements) result) rest)"

fun merge_diffs :: "diff \<Rightarrow> diff list \<Rightarrow> py_error + diff" where
  \<comment> \<open>\<^verbatim>\<open>for diff in diffs[1:]\<close>\<close>
  "merge_diffs result [] = Inr result"
| "merge_diffs result (d # rest) =
     (case add_elements result d of
        Inl e \<Rightarrow> Inl e
      | Inr result' \<Rightarrow> merge_diffs result' rest)"

definition sort_diff :: "diff \<Rightarrow> diff" where
  \<comment> \<open>\<^verbatim>\<open>for element_type, elements in result.items(): result[element_type] = sorted(...)\<close>\<close>
  "sort_diff result =
     map (\<lambda>(element_type, elements). (element_type, sorted_reverse timestamp elements)) result"

definition merge_and_sort_diffs :: "diff list \<Rightarrow> py_error + diff" where
  "merge_and_sort_diffs diffs =
     (case diffs of
        [] \<Rightarrow> Inl IndexError
      | first # rest \<Rightarrow>
          (case merge_diffs first rest of
             Inl e \<Rightarrow> Inl e
           | Inr result \<Rightarrow> Inr (sort_diff result)))"

text \<open>
  The same function on references. A store gives the entries of every list object; a
  dictionary maps its keys to list objects. The first loop changes the store only (it
  rebinds a key of \<^verbatim>\<open>result\<close> to the list object the key already has); the second loop
  binds every key of \<^verbatim>\<open>result\<close> to a new, sorted list. The value of the function is the
  returned dictionary, read with the entries of its lists.
\<close>

type_synonym list_store = "nat \<Rightarrow> DiffEntry list"

type_synonym diff_refs = "(string \<times> nat) list"

definition deref :: "list_store \<Rightarrow> diff_refs \<Rightarrow> diff" where
  \<comment> \<open>a dictionary with the entries of its lists\<close>
  "deref h d = map (\<lambda>(element_type, l). (element_type, h l)) d"

fun add_elements_refs :: "list_store \<Rightarrow> diff_refs \<Rightarrow> diff_refs \<Rightarrow> py_error + list_store" where
  \<comment> \<open>\<^verbatim>\<open>for element_type, elements in diff.items(): result[element_type] += elements\<close>:
      the list object of \<^verbatim>\<open>result\<close> is extended by the entries that \<^verbatim>\<open>elements\<close> has
      at that moment\<close>
  "add_elements_refs h result [] = Inr h"
| "add_elements_refs h result ((element_type, elements) # rest) =
     (case map_of result element_type of
        None \<Rightarrow> Inl KeyError
      | Some target \<Rightarrow> add_elements_refs (h(target := h target @ h elements)) result rest)"

fun merge_diffs_refs :: "list_store \<Rightarrow> diff_refs \<Rightarrow> diff_refs list \<Rightarrow> py_error + list_store" where
  \<comment> \<open>\<^verbatim>\<open>for diff in diffs[1:]\<close>\<close>
  "merge_diffs_refs h result [] = Inr h"
| "merge_diffs_refs h result (d # rest) =
     (case add_elements_refs h result d of
        Inl e \<Rightarrow> Inl e
      | Inr h' \<Rightarrow> merge_diffs_refs h' result rest)"

definition merge_and_sort_diffs_refs :: "list_store \<Rightarrow> diff_refs list \<Rightarrow> py_error + diff" where
  "merge_and_sort_diffs_refs h diffs =
     (case diffs of
        [] \<Rightarrow> Inl IndexError
      | first # rest \<Rightarrow>
          (case merge_diffs_refs h first rest of
             Inl e \<Rightarrow> Inl e
           | Inr h' \<Rightarrow> Inr (sort_diff (deref h' first))))"

definition unshared :: "diff_refs list \<Rightarrow> bool" where
  \<comment> \<open>no list object of the first dictionary occurs a second time, in the first
      dictionary or in a later one\<close>
  "unshared diffs =
     (case diffs of
        [] \<Rightarrow> True
      | first # rest \<Rightarrow>
          distinct (map snd first) \<and>
          (\<forall>d\<in>set rest. set (map snd d) \<inter> set (map snd first) = {}))"

section \<open>The collaborators of \<^verbatim>\<open>main\<close>\<close>

text \<open>
  \<^verbatim>\<open>main\<close> talks to the map-data service (\<^verbatim>\<open>OsmApi\<close>), the history service
  (\<^verbatim>\<open>Overpass\<close>), the inversion engine (\<^verbatim>\<open>Inverter\<close>), the change-document builder and
  the file system. Their modules are not part of the sources: each call is a field of the
  record \<open>env\<close> that gives the call's outcome (a value, or the exception it raises) as a
  function of its arguments, and the constants and helpers of \<^verbatim>\<open>config\<close> and \<^verbatim>\<open>utils\<close>
  are the fields of the record \<open>config\<close>. Every theorem about \<^verbatim>\<open>main\<close> holds for all
  values of both records.
\<close>

datatype arg_value = IntArg int | StrArg string
  \<comment> \<open>an element of the iterable that \<^verbatim>\<open>ensure_iterable\<close> yields: the command line
      gives strings, or numbers where a word is an integer literal (such a number is
      within the interpreter's limit for the conversion to text)\<close>

datatype tag_value = IntTag int | StrTag string

type_synonym tags = "(string \<times> tag_value) list"

record user =
  changesets_count :: int
  roles :: "string list"
  display_name :: string

record changeset =
  cs_uid :: string
    \<comment> \<open>\<^verbatim>\<open>changeset['osm']['changeset']['@uid']\<close>\<close>
  cs_partition :: "(nat \<times> (string \<times> nat list) list) list"
    \<comment> \<open>\<^verbatim>\<open>changeset['partition']\<close>: per partition, the element ids by type\<close>

text \<open>
  Modelled from the spec: \<^verbatim>\<open>InvertedElement\<close> (produced by the module \<^verbatim>\<open>invert\<close>, which is
  not part of the sources). \<^verbatim>\<open>main\<close> only counts inverted elements.
\<close>

datatype action = Create | Modify | Delete

record InvertedElement =
  el_ref :: "element_type \<times> nat"
  el_action :: action
  base_version :: nat

type_synonym invert = "(string \<times> InvertedElement list) list"

record inversion =
  inverted :: invert
    \<comment> \<open>the value of \<^verbatim>\<open>inverter.invert_diff(merged_diffs)\<close>\<close>
  warnings :: "(string \<times> string list) list"
    \<comment> \<open>\<^verbatim>\<open>inverter.warnings\<close>\<close>
  statistics :: tags
    \<comment> \<open>\<^verbatim>\<open>inverter.statistics\<close>\<close>

record credentials =
  cred_username :: "string option"
  cred_password :: "string option"
  cred_oauth_token :: "(string + (string \<times> string) list) option"
    \<comment> \<open>\<^verbatim>\<open>None\<close>, the empty string as given, or the decoded token\<close>

record config =
  CHANGESETS_LIMIT_CONFIG :: "(string \<times> (int \<times> int) list) list"
  CHANGESETS_LIMIT_MODERATOR_REVERT :: int
  CREATED_BY :: string
  WEBSITE :: string
  is_osm_moderator :: "string list \<Rightarrow> bool"

record env =
  getenv :: "string \<Rightarrow> string option"
  json_loads :: "string \<Rightarrow> py_error + (string \<times> string) list"
  OsmApi :: "credentials \<Rightarrow> py_error + unit"
  get_authorized_user :: "py_error + user"
  get_changeset :: "int \<Rightarrow> py_error + changeset"
  get_user :: "string \<Rightarrow> py_error + user option"
  get_changeset_elements_history :: "changeset \<Rightarrow> nat \<Rightarrow> string \<Rightarrow> py_error + diff option"
  invert_diff :: "string set \<Rightarrow> diff \<Rightarrow> py_error + inversion"
    \<comment> \<open>\<^verbatim>\<open>Inverter(only_tags).invert_diff(merged_diffs)\<close>, with the warnings and
        statistics the inverter holds afterwards\<close>
  update_parents :: "invert \<Rightarrow> py_error + nat \<times> invert"
    \<comment> \<open>the number of parents fixed and \<^verbatim>\<open>invert\<close> as the call leaves it\<close>
  osm_change_xml :: "invert \<Rightarrow> py_error + string"
    \<comment> \<open>\<^verbatim>\<open>xmltodict.unparse(build_osm_change(invert, changeset_id=None), pretty=True)\<close>\<close>
  write_file :: "string \<Rightarrow> string \<Rightarrow> py_error + unit"
  get_changeset_max_size :: "py_error + int"
  upload_diff :: "invert \<Rightarrow> string \<Rightarrow> tags \<Rightarrow> py_error + int option"
  post_discussion_comment :: "int \<Rightarrow> string \<Rightarrow> py_error + string"

record args =
  changeset_ids :: "arg_value list"
  comment :: string
  username :: "string option"
  password :: "string option"
  oauth_token :: "string option"
  discussion :: "string option"
  discussion_target :: "string option"
  osc_file :: "string option"
  print_osc :: "bool option"
  query_filter :: string
  only_tags :: "arg_value list"

section \<open>Effects\<close>

datatype message =
    MsgLoggingIn
  | MsgWelcome string bool
  | MsgNeedEdits int
  | MsgSafetyLimit int
  | MsgIncreaseLimit int
  | MsgDownloading int
  | MsgOsmPending
  | MsgOsmElements nat nat
  | MsgModeratorsChangesets
  | MsgOverpassPending nat nat
  | MsgOverpassElements nat nat bool
  | MsgGenerating
  | MsgFixingParents nat
  | MsgNothingToRevert
  | MsgSaving nat
  | MsgOsc string
  | MsgVerify string string
  | MsgSuccess
  | MsgSuccessUrl string
  | MsgTooBig nat int
  | MsgHintReduce
  | MsgUploading nat
  | MsgUnknownTarget "string option"
  | MsgDiscussing nat
  | MsgDiscussionStatus nat nat int string
  | MsgTraceback py_error
  | MsgTotalTime

datatype event =
    Print message
  | CallOsmApi credentials
  | CallGetAuthorizedUser
  | CallGetChangeset int
  | CallGetUser string
  | CallHistory changeset nat string
  | CallInvertDiff diff
  | CallUpdateParents invert
  | CallBuildOsmChange invert
  | WriteFile string string
  | CallGetChangesetMaxSize
  | CallUploadDiff invert string tags
  | CallPostDiscussionComment int string

fun is_network_call :: "event \<Rightarrow> bool" where
  "is_network_call (Print m) = False"
| "is_network_call (CallInvertDiff d) = False"
| "is_network_call (CallBuildOsmChange i) = False"
| "is_network_call (WriteFile f x) = False"
| "is_network_call ev = True"

text \<open>
  A piece of \<^verbatim>\<open>main\<close> either raises, leaves \<^verbatim>\<open>main\<close> through \<^verbatim>\<open>return\<close>, or goes on
  with a value; it also emits events, in order.
\<close>

datatype 'a flow = Raise py_error | Return int | Next 'a

type_synonym 'a run = "'a flow \<times> event list"

definition emit :: "message \<Rightarrow> unit run" where
  "emit m = (Next (), [Print m])"

definition call :: "event \<Rightarrow> py_error + 'a \<Rightarrow> 'a run" where
  \<comment> \<open>a call of a collaborator: the event is recorded whether or not the call raises\<close>
  "call ev outcome = (case outcome of Inl e \<Rightarrow> (Raise e, [ev]) | Inr x \<Rightarrow> (Next x, [ev]))"

definition lift :: "py_error + 'a \<Rightarrow> 'a run" where
  \<comment> \<open>a function of this file that may raise\<close>
  "lift outcome = (case outcome of Inl e \<Rightarrow> (Raise e, []) | Inr x \<Rightarrow> (Next x, []))"

definition seq :: "'a run \<Rightarrow> ('a \<Rightarrow> 'b run) \<Rightarrow> 'b run" where
  "seq m f =
     (case m of
        (Raise e, tr) \<Rightarrow> (Raise e, tr)
      | (Return c, tr) \<Rightarrow> (Return c, tr)
      | (Next x, tr) \<Rightarrow> (case f x of (r, tr') \<Rightarrow> (r, tr @ tr')))"

fun emit_all :: "message list \<Rightarrow> unit run" where
  "emit_all [] = (Next (), [])"
| "emit_all (m # ms) = seq (emit m) (\<lambda>_. emit_all ms)"

definition proceed :: "'a \<Rightarrow> 'a run" where
  "proceed x = (Next x, [])"

definition ret :: "int \<Rightarrow> 'a run" where
  \<comment> \<open>\<^verbatim>\<open>return exit_code\<close>\<close>
  "ret c = (Return c, [])"

definition raise :: "py_error \<Rightarrow> 'a run" where
  "raise e = (Raise e, [])"

section \<open>Conversions between numbers and strings\<close>

definition truthy_str :: "string option \<Rightarrow> bool" where
  "truthy_str s = (case s of None \<Rightarrow> False | Some x \<Rightarrow> x \<noteq> [])"

fun truthy :: "arg_value \<Rightarrow> bool" where
  "truthy (IntArg i) = (i \<noteq> 0)"
| "truthy (StrArg s) = (s \<noteq> [])"

fun digits_of :: "nat \<Rightarrow> string" where
  "digits_of n =
     (if n < 10 then [''0123456789'' ! n]
      else digits_of (n div 10) @ [''0123456789'' ! (n mod 10)])"

declare digits_of.simps [simp del]

definition str_of_int :: "int \<Rightarrow> string" where
  \<comment> \<open>\<^verbatim>\<open>str(i)\<close> for an integer\<close>
  "str_of_int i = (if i < 0 then ''-'' @ digits_of (nat (- i)) else digits_of (nat i))"

fun py_str :: "arg_value \<Rightarrow> string" where
  "py_str (IntArg i) = str_of_int i"
| "py_str (StrArg s) = s"

definition digit_value :: "char \<Rightarrow> int" where
  "digit_value c =
     (case map_of (zip ''0123456789'' [0, 1, 2, 3, 4, 5, 6, 7, 8, 9]) c of
        None \<Rightarrow> 0 | Some v \<Rightarrow> v)"

definition int_of_digits :: "string \<Rightarrow> int" where
  \<comment> \<open>the value of a string of decimal digits\<close>
  "int_of_digits s = foldl (\<lambda>a c. 10 * a + digit_value c) 0 s"

definition py_int :: "string \<Rightarrow> py_error + int" where
  \<comment> \<open>\<^verbatim>\<open>int(s)\<close> for a string with \<^verbatim>\<open>s.isnumeric()\<close>, which is what \<^verbatim>\<open>main\<close> calls it on
      (the changeset ids, after the assertion of line 140). Such a string has no sign,
      blank or underscore: \<^verbatim>\<open>int\<close> gives its value when all its characters are decimal
      digits and there are no more than 4300 of them (the interpreter's default limit),
      and raises \<^verbatim>\<open>ValueError\<close> otherwise, so on a superscript or a fraction\<close>
  "py_int s =
     (if s \<noteq> [] \<and> list_all (\<lambda>c. c \<in> set ''0123456789'') s \<and> length s \<le> 4300
      then Inr (int_of_digits s) else Inl ValueError)"

fun join :: "string \<Rightarrow> string list \<Rightarrow> string" where
  "join sep [] = []"
| "join sep [x] = x"
| "join sep (x # y # ys) = x @ sep @ join sep (y # ys)"

definition py_max :: "int list \<Rightarrow> py_error + int" where
  "py_max xs = (case xs of [] \<Rightarrow> Inl ValueError | x # rest \<Rightarrow> Inr (fold max rest x))"

definition py_min :: "int list \<Rightarrow> py_error + int" where
  "py_min xs = (case xs of [] \<Rightarrow> Inl ValueError | x # rest \<Rightarrow> Inr (fold min rest x))"

definition dict_union :: "('k \<times> 'v) list \<Rightarrow> ('k \<times> 'v) list \<Rightarrow> ('k \<times> 'v) list" where
  \<comment> \<open>\<^verbatim>\<open>a | b\<close>\<close>
  "dict_union a b = fold (\<lambda>(k, v) d. AList.update k v d) b a"

section \<open>Small functions of \<^verbatim>\<open>app/main.py\<close>\<close>

definition filter_discussion_changesets :: "string list \<Rightarrow> string option \<Rightarrow> string list run" where
  "filter_discussion_changesets ids target =
     (if target = Some ''all'' then proceed ids
      else if target = Some ''newest'' then proceed (drop (length ids - 1) ids)
      else if target = Some ''oldest'' then proceed (take 1 ids)
      else seq (emit (MsgUnknownTarget target)) (\<lambda>_. proceed []))"

definition print_warn_elements :: "(string \<times> string list) list \<Rightarrow> unit run" where
  "print_warn_elements warn_elements =
     emit_all (concat (map (\<lambda>(element_type, element_ids).
                              map (MsgVerify element_type) element_ids) warn_elements))"

fun main_timer :: "int run \<Rightarrow> int \<times> event list" where
  \<comment> \<open>the wrapper around a run of \<^verbatim>\<open>func\<close>: the exit code handed to \<^verbatim>\<open>exit\<close>, and the
      events with the wrapper's own prints\<close>
  "main_timer (Return exit_code, tr) = (exit_code, tr @ [Print MsgTotalTime])"
| "main_timer (Next exit_code, tr) = (exit_code, tr @ [Print MsgTotalTime])"
| "main_timer (Raise e, tr) = (- 2, tr @ [Print (MsgTraceback e), Print MsgTotalTime])"

section \<open>\<^verbatim>\<open>main\<close>, in the order of its lines\<close>

definition normalise :: "arg_value list \<Rightarrow> string list" where
  \<comment> \<open>\<^verbatim>\<open>str(x).strip() for x in ensure_iterable(xs) if x\<close>\<close>
  "normalise xs = map (\<lambda>x. strip (py_str x)) (filter truthy xs)"

definition check_changeset_ids :: "arg_value list \<Rightarrow> string list run" where
  \<comment> \<open>lines 134 to 140\<close>
  "check_changeset_ids xs =
     (let ids = sort (remdups (normalise xs))
      in if ids = [] then raise AssertionError
         else if \<not> list_all isnumeric ids then raise AssertionError
         else proceed ids)"

definition login :: "env \<Rightarrow> args \<Rightarrow> user run" where
  \<comment> \<open>lines 148 to 157\<close>
  "login env a =
     (let (u, p) = (if \<not> truthy_str (username a) \<and> \<not> truthy_str (password a)
                    then (getenv env ''OSM_USERNAME'', getenv env ''OSM_PASSWORD'')
                    else (username a, password a))
      in seq (case oauth_token a of
                None \<Rightarrow> proceed None
              | Some t \<Rightarrow>
                  if t = [] then proceed (Some (Inl t))
                  else seq (lift (json_loads env t)) (\<lambda>d. proceed (Some (Inr d))))
           (\<lambda>token.
         seq (emit MsgLoggingIn) (\<lambda>_.
         let cred = \<lparr>cred_username = u, cred_password = p, cred_oauth_token = token\<rparr>
         in seq (call (CallOsmApi cred) (OsmApi env cred)) (\<lambda>_.
            call CallGetAuthorizedUser (get_authorized_user env)))))"

definition changesets_limit_config :: "config \<Rightarrow> bool \<Rightarrow> py_error + (int \<times> int) list" where
  \<comment> \<open>line 164: \<^verbatim>\<open>CHANGESETS_LIMIT_CONFIG['moderator' if user_is_moderator else '']\<close>\<close>
  "changesets_limit_config cfg user_is_moderator =
     (case map_of (CHANGESETS_LIMIT_CONFIG cfg) (if user_is_moderator then ''moderator'' else [])
      of None \<Rightarrow> Inl KeyError | Some c \<Rightarrow> Inr c)"

definition changesets_limit :: "(int \<times> int) list \<Rightarrow> int \<Rightarrow> py_error + int" where
  \<comment> \<open>line 165: \<^verbatim>\<open>max(v for k, v in changesets_limit_config.items() if k <= user_edits)\<close>\<close>
  "changesets_limit limit_config user_edits =
     py_max (map snd (filter (\<lambda>(k, v). k \<le> user_edits) limit_config))"

definition check_limits :: "config \<Rightarrow> int \<Rightarrow> bool \<Rightarrow> nat \<Rightarrow> unit run" where
  \<comment> \<open>lines 164 to 178\<close>
  "check_limits cfg user_edits user_is_moderator n =
     seq (lift (changesets_limit_config cfg user_is_moderator)) (\<lambda>limit_config.
     seq (lift (changesets_limit limit_config user_edits)) (\<lambda>limit.
     if limit = 0 then
       seq (lift (py_min (filter (\<lambda>k. k > 0) (map fst limit_config)))) (\<lambda>min_edits.
       seq (emit (MsgNeedEdits min_edits)) (\<lambda>_. ret (- 1)))
     else if limit < int n then
       seq (emit (MsgSafetyLimit limit)) (\<lambda>_.
       seq (case py_min (filter (\<lambda>k. k > user_edits) (map fst limit_config)) of
              Inl _ \<Rightarrow> proceed ()
            | Inr limit_increase \<Rightarrow>
                if limit_increase \<noteq> 0 then emit (MsgIncreaseLimit limit_increase)
                else proceed ()) (\<lambda>_.
       ret (- 1)))
     else proceed ()))"

definition changeset_size :: "changeset \<Rightarrow> nat" where
  "changeset_size c = (\<Sum>p\<leftarrow>map snd (cs_partition c). \<Sum>v\<leftarrow>map snd p. length v)"

definition diff_size :: "('k \<times> 'v list) list \<Rightarrow> nat" where
  \<comment> \<open>\<^verbatim>\<open>sum(len(el) for el in diff.values())\<close>, also the \<^verbatim>\<open>invert_size\<close> of line 234\<close>
  "diff_size d = (\<Sum>el\<leftarrow>map snd d. length el)"

definition check_author :: "config \<Rightarrow> env \<Rightarrow> int \<Rightarrow> bool \<Rightarrow> changeset \<Rightarrow> unit run" where
  \<comment> \<open>lines 190 to 194\<close>
  "check_author cfg env user_edits user_is_moderator changeset =
     (if user_edits < CHANGESETS_LIMIT_MODERATOR_REVERT cfg \<and> \<not> user_is_moderator then
        seq (call (CallGetUser (cs_uid changeset)) (get_user env (cs_uid changeset)))
          (\<lambda>changeset_user.
        case changeset_user of
          None \<Rightarrow> proceed ()
        | Some cu \<Rightarrow>
            if is_osm_moderator cfg (roles cu)
            then seq (emit MsgModeratorsChangesets) (\<lambda>_. ret (- 1))
            else proceed ())
      else proceed ())"

definition fetch_diff :: "env \<Rightarrow> string \<Rightarrow> changeset \<Rightarrow> diff list \<Rightarrow> diff list run" where
  \<comment> \<open>lines 196 to 222; the value is the list \<^verbatim>\<open>diffs\<close>\<close>
  "fetch_diff env qf changeset diffs =
     (let partition_count = length (cs_partition changeset);
          steps = partition_count + 1
      in
      seq (emit (MsgOsmElements steps (changeset_size changeset))) (\<lambda>_.
      if changeset_size changeset \<noteq> 0 then
        seq (emit (MsgOverpassPending steps partition_count)) (\<lambda>_.
        seq (call (CallHistory changeset steps qf)
               (get_changeset_elements_history env changeset steps qf)) (\<lambda>d.
        case d of
          None \<Rightarrow> ret (- 1)
        | Some diff \<Rightarrow>
            if diff = [] then ret (- 1)
            else if \<not> diff_size diff \<le> changeset_size changeset then raise AssertionError
            else seq (emit (MsgOverpassElements steps (diff_size diff) (qf \<noteq> [])))
                   (\<lambda>_. proceed (diffs @ [diff]))))
      else proceed diffs))"

definition download_changeset ::
    "config \<Rightarrow> env \<Rightarrow> int \<Rightarrow> bool \<Rightarrow> string \<Rightarrow> string \<Rightarrow> diff list \<Rightarrow> diff list run" where
  \<comment> \<open>the body of the loop of lines 183 to 222\<close>
  "download_changeset cfg env user_edits user_is_moderator qf cid diffs =
     seq (lift (py_int cid)) (\<lambda>changeset_id.
     seq (emit (MsgDownloading changeset_id)) (\<lambda>_.
     seq (emit MsgOsmPending) (\<lambda>_.
     seq (call (CallGetChangeset changeset_id) (get_changeset env changeset_id)) (\<lambda>changeset.
     seq (check_author cfg env user_edits user_is_moderator changeset) (\<lambda>_.
     fetch_diff env qf changeset diffs)))))"

fun download_changesets ::
    "config \<Rightarrow> env \<Rightarrow> int \<Rightarrow> bool \<Rightarrow> string \<Rightarrow> string list \<Rightarrow> diff list \<Rightarrow> diff list run" where
  \<comment> \<open>\<^verbatim>\<open>for changeset_id in changeset_ids\<close>\<close>
  "download_changesets cfg env user_edits user_is_moderator qf [] diffs = proceed diffs"
| "download_changesets cfg env user_edits user_is_moderator qf (cid # rest) diffs =
     seq (download_changeset cfg env user_edits user_is_moderator qf cid diffs)
       (download_changesets cfg env user_edits user_is_moderator qf rest)"

definition generate_revert :: "env \<Rightarrow> string set \<Rightarrow> diff list \<Rightarrow> inversion run" where
  \<comment> \<open>lines 224 to 232; the value is the inverter's state with \<^verbatim>\<open>invert\<close> as
      \<^verbatim>\<open>update_parents\<close> leaves it\<close>
  "generate_revert env tags_only diffs =
     seq (emit MsgGenerating) (\<lambda>_.
     seq (lift (merge_and_sort_diffs diffs)) (\<lambda>merged_diffs.
     seq (call (CallInvertDiff merged_diffs) (invert_diff env tags_only merged_diffs)) (\<lambda>ivn.
     seq (call (CallUpdateParents (inverted ivn)) (update_parents env (inverted ivn)))
       (\<lambda>(parents, invert').
     seq (if parents \<noteq> 0 then emit (MsgFixingParents parents) else proceed ()) (\<lambda>_.
     proceed (ivn\<lparr>inverted := invert'\<rparr>))))))"

definition save_osc :: "env \<Rightarrow> args \<Rightarrow> inversion \<Rightarrow> int run" where
  \<comment> \<open>lines 241 to 257\<close>
  "save_osc env a ivn =
     seq (emit (MsgSaving (diff_size (inverted ivn)))) (\<lambda>_.
     seq (call (CallBuildOsmChange (inverted ivn)) (osm_change_xml env (inverted ivn)))
       (\<lambda>xml.
     seq (case osc_file a of
            None \<Rightarrow> proceed ()
          | Some f \<Rightarrow>
              if f \<noteq> [] then call (WriteFile f xml) (write_file env f xml)
              else proceed ()) (\<lambda>_.
     seq (if print_osc a = Some True then emit (MsgOsc xml) else proceed ()) (\<lambda>_.
     seq (print_warn_elements (warnings ivn)) (\<lambda>_.
     seq (emit MsgSuccess) (\<lambda>_.
     ret 0))))))"

fun post_comments :: "env \<Rightarrow> string \<Rightarrow> nat \<Rightarrow> nat \<Rightarrow> string list \<Rightarrow> unit run" where
  \<comment> \<open>\<^verbatim>\<open>for i, changeset_id in enumerate(d_changeset_ids, 1)\<close>\<close>
  "post_comments env text n_ids i [] = proceed ()"
| "post_comments env text n_ids i (cid # rest) =
     seq (lift (py_int cid)) (\<lambda>changeset_id.
     seq (call (CallPostDiscussionComment changeset_id text)
            (post_discussion_comment env changeset_id text)) (\<lambda>status.
     seq (emit (MsgDiscussionStatus i n_ids changeset_id status)) (\<lambda>_.
     post_comments env text n_ids (Suc i) rest)))"

definition extra_args :: "config \<Rightarrow> args \<Rightarrow> string list \<Rightarrow> int \<Rightarrow> tags" where
  \<comment> \<open>lines 272 to 284\<close>
  "extra_args cfg a ids user_edits =
     (let d = [(''changesets_count'', IntTag (user_edits + 1)),
               (''created_by'', StrTag (CREATED_BY cfg)),
               (''website'', StrTag (WEBSITE cfg))];
          d = AList.update ''id''
                (StrTag (if length ids = 1
                         then join '';''
                                (map (\<lambda>c. ''https://www.openstreetmap.org/changeset/'' @ c) ids)
                         else join '';'' ids)) d
      in if query_filter a \<noteq> [] then AList.update ''filter'' (StrTag (query_filter a)) d else d)"

definition after_upload :: "env \<Rightarrow> args \<Rightarrow> string list \<Rightarrow> inversion \<Rightarrow> int \<Rightarrow> int run" where
  \<comment> \<open>lines 287 to 305, once \<^verbatim>\<open>upload_diff\<close> has given a changeset id\<close>
  "after_upload env a ids ivn new_id =
     (let changeset_url = ''https://www.openstreetmap.org/changeset/'' @ str_of_int new_id in
      case discussion a of
        None \<Rightarrow> raise AttributeError
      | Some text \<Rightarrow>
          seq (if length (strip text) \<ge> 4 then
                 (let text' = strip text @ [CHR 0x0A, CHR 0x0A] @ changeset_url in
                  seq (filter_discussion_changesets ids (discussion_target a)) (\<lambda>d_changeset_ids.
                  seq (emit (MsgDiscussing (length d_changeset_ids))) (\<lambda>_.
                  post_comments env text' (length d_changeset_ids) 1 d_changeset_ids)))
               else proceed ()) (\<lambda>_.
          seq (print_warn_elements (warnings ivn)) (\<lambda>_.
          seq (emit MsgSuccess) (\<lambda>_.
          seq (emit (MsgSuccessUrl changeset_url)) (\<lambda>_.
          ret 0)))))"

definition upload :: "config \<Rightarrow> env \<Rightarrow> args \<Rightarrow> string list \<Rightarrow> int \<Rightarrow> inversion \<Rightarrow> int run" where
  \<comment> \<open>lines 260 to 307; when \<^verbatim>\<open>upload_diff\<close> gives no changeset id, control reaches the
      last line, \<^verbatim>\<open>return -1\<close>\<close>
  "upload cfg env a ids user_edits ivn =
     seq (call CallGetChangesetMaxSize (get_changeset_max_size env)) (\<lambda>changeset_max_size.
     if int (diff_size (inverted ivn)) > changeset_max_size then
       seq (emit (MsgTooBig (diff_size (inverted ivn)) changeset_max_size)) (\<lambda>_.
       seq (if length ids > 1 then emit MsgHintReduce else proceed ()) (\<lambda>_.
       ret (- 1)))
     else
       seq (emit (MsgUploading (diff_size (inverted ivn)))) (\<lambda>_.
       let tags = dict_union (extra_args cfg a ids user_edits) (statistics ivn) in
       seq (call (CallUploadDiff (inverted ivn) (comment a) tags)
              (upload_diff env (inverted ivn) (comment a) tags)) (\<lambda>changeset_id.
       case changeset_id of
         None \<Rightarrow> ret (- 1)
       | Some i \<Rightarrow> if i \<noteq> 0 then after_upload env a ids ivn i else ret (- 1))))"

definition startup :: "config \<Rightarrow> env \<Rightarrow> args \<Rightarrow> (string list \<times> user) run" where
  \<comment> \<open>lines 134 to 178: the arguments, the login and the limits of the account\<close>
  "startup cfg env a =
     seq (check_changeset_ids (changeset_ids a)) (\<lambda>ids.
     seq (login env a) (\<lambda>user.
     let user_edits = changesets_count user;
         user_is_moderator = is_osm_moderator cfg (roles user)
     in
     seq (emit (MsgWelcome (display_name user) user_is_moderator)) (\<lambda>_.
     seq (check_limits cfg user_edits user_is_moderator (length ids)) (\<lambda>_.
     proceed (ids, user)))))"

definition finish :: "config \<Rightarrow> env \<Rightarrow> args \<Rightarrow> string list \<Rightarrow> int \<Rightarrow> inversion \<Rightarrow> int run" where
  \<comment> \<open>lines 234 to 307\<close>
  "finish cfg env a ids user_edits ivn =
     (if diff_size (inverted ivn) = 0 then
        seq (emit MsgNothingToRevert) (\<lambda>_. ret 0)
      else if truthy_str (osc_file a) \<or> print_osc a = Some True then save_osc env a ivn
      else upload cfg env a ids user_edits ivn)"

definition main :: "config \<Rightarrow> env \<Rightarrow> args \<Rightarrow> int run" where
  "main cfg env a =
     seq (startup cfg env a) (\<lambda>(ids, user).
     seq (download_changesets cfg env (changesets_count user)
            (is_osm_moderator cfg (roles user)) (query_filter a) ids []) (\<lambda>diffs.
     seq (generate_revert env (set (normalise (only_tags a))) diffs) (\<lambda>ivn.
     finish cfg env a ids (changesets_count user) ivn)))"

section \<open>Notions used to state the properties\<close>

text \<open>
  The events of a run fall into the four stages of \<^verbatim>\<open>main\<close>: start-up (0), download of the
  changesets (1), generation of the revert (2) and its output, to a file or by upload (3).
\<close>

fun message_stage :: "message \<Rightarrow> nat" where
  "message_stage MsgLoggingIn = 0"
| "message_stage (MsgWelcome n m) = 0"
| "message_stage (MsgNeedEdits k) = 0"
| "message_stage (MsgSafetyLimit k) = 0"
| "message_stage (MsgIncreaseLimit k) = 0"
| "message_stage (MsgDownloading i) = 1"
| "message_stage MsgOsmPending = 1"
| "message_stage (MsgOsmElements s n) = 1"
| "message_stage MsgModeratorsChangesets = 1"
| "message_stage (MsgOverpassPending s n) = 1"
| "message_stage (MsgOverpassElements s n f) = 1"
| "message_stage MsgGenerating = 2"
| "message_stage (MsgFixingParents n) = 2"
| "message_stage m = 3"

fun stage :: "event \<Rightarrow> nat" where
  "stage (Print m) = message_stage m"
| "stage (CallOsmApi c) = 0"
| "stage CallGetAuthorizedUser = 0"
| "stage (CallGetChangeset i) = 1"
| "stage (CallGetUser u) = 1"
| "stage (CallHistory c s q) = 1"
| "stage (CallInvertDiff d) = 2"
| "stage (CallUpdateParents i) = 2"
| "stage ev = 3"

definition events_in :: "(event \<Rightarrow> bool) \<Rightarrow> 'a run \<Rightarrow> bool" where
  "events_in P m = list_all P (snd m)"

fun stopped :: "'a flow \<Rightarrow> 'b flow \<Rightarrow> bool" where
  \<comment> \<open>a piece that raises or returns ends the whole run the same way\<close>
  "stopped (Raise e) fl = (fl = Raise e)"
| "stopped (Return c) fl = (fl = Return c)"
| "stopped (Next x) fl = False"

text \<open>
  The order the specification gives for a merged list: newest first, ties broken by
  descending changeset id, then by descending version.
\<close>

definition spec_order :: "DiffEntry \<Rightarrow> DiffEntry \<Rightarrow> bool" where
  "spec_order x y =
     (timestamp y < timestamp x \<or>
      (timestamp x = timestamp y \<and>
         (changeset_id y < changeset_id x \<or>
          (changeset_id x = changeset_id y \<and> version y \<le> version x))))"

text \<open>
  The shape of an element-filter token, in the words of its description: signs and
  blanks, then a body; the body is a type prefix of the table, separators, blanks and a
  numeric id. A token of the exclude sets has at least one \<^verbatim>\<open>-\<close>; a token of the include
  sets has any number of \<^verbatim>\<open>+\<close>.
\<close>

definition sign_char :: "filter_mode \<Rightarrow> char" where
  "sign_char m = (case m of Include \<Rightarrow> CHR ''+'' | Exclude \<Rightarrow> CHR ''-'')"

definition signed_token :: "filter_mode \<Rightarrow> string \<Rightarrow> string \<Rightarrow> bool" where
  "signed_token m body s =
     (\<exists>k ws. (m = Exclude \<longrightarrow> 0 < k) \<and> set ws \<subseteq> set whitespace \<and>
        s = replicate k (sign_char m) @ ws @ body)"

definition token_body :: "element_type \<Rightarrow> string \<Rightarrow> string \<Rightarrow> bool" where
  "token_body ty i body =
     (\<exists>ps p seps ws. (ty, ps) \<in> set prefixes \<and> p \<in> set ps \<and>
        set seps \<subseteq> set '':;.,'' \<and> set ws \<subseteq> set whitespace \<and> isnumeric i \<and>
        body = p @ seps @ ws @ i)"

section \<open>Sample collaborators\<close>

text \<open>
  A configuration, a service and a command line on which \<^verbatim>\<open>main\<close> is run below: the
  user \<open>alice\<close> has 150 edits and no role, changeset 123 of user 42 holds one node, the
  history service returns one entry for it and the inverter one element to delete.
\<close>

definition sample_config :: config where
  "sample_config =
     \<lparr>CHANGESETS_LIMIT_CONFIG =
        [([], [(0, 0), (10, 1), (100, 3)]), (''moderator'', [(0, 50)])],
      CHANGESETS_LIMIT_MODERATOR_REVERT = 100,
      CREATED_BY = ''revert'',
      WEBSITE = ''example.org'',
      is_osm_moderator = (\<lambda>rs. ''moderator'' \<in> set rs)\<rparr>"

definition alice :: user where
  "alice = \<lparr>changesets_count = 150, roles = [], display_name = ''alice''\<rparr>"

definition newcomer :: user where
  "newcomer = \<lparr>changesets_count = 20, roles = [], display_name = ''newcomer''\<rparr>"

definition moderator :: user where
  "moderator = \<lparr>changesets_count = 9, roles = [''moderator''], display_name = ''mod''\<rparr>"

definition sample_changeset :: changeset where
  "sample_changeset = \<lparr>cs_uid = ''42'', cs_partition = [(0, [(''node'', [7])])]\<rparr>"

definition empty_changeset :: changeset where
  "empty_changeset = \<lparr>cs_uid = ''42'', cs_partition = [(0, [(''node'', [])])]\<rparr>"

definition sample_entry :: DiffEntry where
  "sample_entry = \<lparr>timestamp = 5, changeset_id = 123, version = 2, ref = (Node, 7)\<rparr>"

definition sample_diff :: diff where
  "sample_diff = [(''node'', [sample_entry]), (''way'', [])]"

definition oversized_diff :: diff where
  "oversized_diff = [(''node'', [sample_entry, sample_entry])]"

definition sample_element :: InvertedElement where
  "sample_element = \<lparr>el_ref = (Node, 7), el_action = Delete, base_version = 2\<rparr>"

definition sample_inversion :: inversion where
  "sample_inversion =
     \<lparr>inverted = [(''node'', [sample_element])], warnings = [], statistics = []\<rparr>"

definition sample_env :: env where
  "sample_env =
     \<lparr>getenv = (\<lambda>_. None),
      json_loads = (\<lambda>_. Inl ValueError),
      OsmApi = (\<lambda>_. Inr ()),
      get_authorized_user = Inr alice,
      get_changeset = (\<lambda>_. Inr sample_changeset),
      get_user = (\<lambda>_. Inr (Some moderator)),
      get_changeset_elements_history = (\<lambda>_ _ _. Inr (Some sample_diff)),
      invert_diff = (\<lambda>_ _. Inr sample_inversion),
      update_parents = (\<lambda>i. Inr (0, i)),
      osm_change_xml = (\<lambda>_. Inr ''osc''),
      write_file = (\<lambda>_ _. Inr ()),
      get_changeset_max_size = Inr 10,
      upload_diff = (\<lambda>_ _ _. Inr (Some 77)),
      post_discussion_comment = (\<lambda>_ _. Inr ''ok'')\<rparr>"

definition sample_args :: args where
  "sample_args =
     \<lparr>changeset_ids = [StrArg ''123''],
      comment = ''undo'',
      username = None,
      password = None,
      oauth_token = None,
      discussion = Some ''hi'',
      discussion_target = None,
      osc_file = None,
      print_osc = None,
      query_filter = [],
      only_tags = []\<rparr>"

section \<open>Properties of \<^verbatim>\<open>build_element_ids_dict\<close>\<close>

lemma first_prefix_Some:
  "first_prefix ps s = Some p \<Longrightarrow> p \<in> set ps \<and> startswith s p"
  by (induction ps) (auto split: if_splits)

lemma first_prefix_None:
  "first_prefix ps s = None \<longleftrightarrow> (\<forall>p\<in>set ps. \<not> startswith s p)"
  by (induction ps) auto

lemma find_prefix_Some:
  "find_prefix tbl s = Some (ty, p) \<Longrightarrow>
   \<exists>ps. (ty, ps) \<in> set tbl \<and> p \<in> set ps \<and> startswith s p"
proof (induction tbl)
  case Nil
  then show ?case by simp
next
  case (Cons entry tbl)
  obtain ty' ps' where entry: "entry = (ty', ps')" by (cases entry)
  show ?case
  proof (cases "first_prefix ps' s")
    case None
    with Cons entry show ?thesis by auto
  next
    case (Some p')
    with Cons.prems entry have "ty = ty'" "p = p'" by simp_all
    with Some entry first_prefix_Some [of ps' s p'] show ?thesis by auto
  qed
qed

lemma find_prefix_None:
  "find_prefix tbl s = None \<longleftrightarrow> (\<forall>(ty, ps)\<in>set tbl. \<forall>p\<in>set ps. \<not> startswith s p)"
proof (induction tbl)
  case Nil
  then show ?case by simp
next
  case (Cons entry tbl)
  obtain ty' ps' where entry: "entry = (ty', ps')" by (cases entry)
  show ?case
  proof (cases "first_prefix ps' s")
    case None
    then have "\<forall>p\<in>set ps'. \<not> startswith s p" by (simp add: first_prefix_None)
    with Cons entry None show ?thesis by simp
  next
    case (Some p')
    with entry first_prefix_Some [of ps' s p'] show ?thesis by auto
  qed
qed

lemma add_id_apply:
  "add_id r (m', ty', i) m ty = (if m = m' \<and> ty = ty' then insert i (r m ty) else r m ty)"
  by (simp add: add_id_def)

lemma build_from_Inr:
  "build_from r ts = Inr r' \<Longrightarrow>
   (\<forall>t\<in>set ts. \<exists>x. parse_element_id t = Inr x) \<and>
   (\<forall>m ty. r' m ty = r m ty \<union> {i. \<exists>t\<in>set ts. parse_element_id t = Inr (m, ty, i)})"
proof (induction ts arbitrary: r)
  case Nil
  then show ?case by simp
next
  case (Cons t ts)
  from Cons.prems obtain x where x: "parse_element_id t = Inr x"
    and rest: "build_from (add_id r x) ts = Inr r'"
    by (auto split: sum.splits)
  obtain m' ty' i' where x_def: "x = (m', ty', i')" by (cases x)
  from Cons.IH [OF rest]
  have all: "\<forall>t\<in>set ts. \<exists>x. parse_element_id t = Inr x"
    and sets: "\<And>m ty. r' m ty =
        add_id r x m ty \<union> {i. \<exists>t\<in>set ts. parse_element_id t = Inr (m, ty, i)}"
    by simp_all
  have "r' m ty = r m ty \<union> {i. \<exists>t\<in>set (t # ts). parse_element_id t = Inr (m, ty, i)}"
    for m ty
    unfolding sets x_def add_id_apply using x x_def by auto
  moreover have "\<forall>t\<in>set (t # ts). \<exists>x. parse_element_id t = Inr x"
    using all x by (simp del: split_paired_Ex)
  ultimately show ?case by blast
qed

lemma build_from_Inl:
  "build_from r ts = Inl e \<Longrightarrow>
   \<exists>good bad rest. ts = good @ bad # rest \<and>
     (\<forall>t\<in>set good. \<exists>x. parse_element_id t = Inr x) \<and> parse_element_id bad = Inl e"
proof (induction ts arbitrary: r)
  case Nil
  then show ?case by simp
next
  case (Cons t ts)
  show ?case
  proof (cases "parse_element_id t")
    case (Inl e')
    with Cons.prems have "e' = e" by simp
    with Inl have "t # ts = [] @ t # ts \<and>
        (\<forall>t\<in>set []. \<exists>x. parse_element_id t = Inr x) \<and> parse_element_id t = Inl e"
      by simp
    then show ?thesis by blast
  next
    case (Inr x)
    with Cons.prems have "build_from (add_id r x) ts = Inl e" by simp
    from Cons.IH [OF this] obtain good bad rest where
      "ts = good @ bad # rest" "\<forall>t\<in>set good. \<exists>x. parse_element_id t = Inr x"
      "parse_element_id bad = Inl e" by blast
    with Inr have "t # ts = (t # good) @ bad # rest \<and>
        (\<forall>t\<in>set (t # good). \<exists>x. parse_element_id t = Inr x) \<and> parse_element_id bad = Inl e"
      by (simp del: split_paired_Ex)
    then show ?thesis by blast
  qed
qed

lemma parse_element_id_Inr:
  assumes "parse_element_id t = Inr (m, ty, i)"
  shows "(m = Exclude \<longleftrightarrow> startswith (lower (strip t)) ''-'') \<and> isnumeric i \<and>
    (\<exists>ps p. (ty, ps) \<in> set prefixes \<and> p \<in> set ps \<and> startswith (snd (strip_sign t)) p \<and>
       i = lstrip (lstrip_chars '':;.,'' (drop (length p) (snd (strip_sign t)))))"
proof -
  obtain m' body where sign: "strip_sign t = (m', body)" by (cases "strip_sign t")
  from assms sign obtain p where found: "find_prefix prefixes body = Some (ty, p)"
    and num: "isnumeric (lstrip (lstrip_chars '':;.,'' (drop (length p) body)))"
    and i: "i = lstrip (lstrip_chars '':;.,'' (drop (length p) body))" and m: "m = m'"
    by (auto simp: parse_element_id_def Let_def split: option.splits if_splits)
  have "m' = Exclude \<longleftrightarrow> startswith (lower (strip t)) ''-''"
    using sign by (auto simp: strip_sign_def Let_def split: if_splits)
  moreover from find_prefix_Some [OF found] obtain ps where
    "(ty, ps) \<in> set prefixes" "p \<in> set ps" "startswith body p" by blast
  ultimately show ?thesis using sign num i m by auto
qed

lemma parse_element_id_Inl:
  assumes "parse_element_id t = Inl e"
  shows "(e = UnknownFilterFormat (snd (strip_sign t)) \<and>
      (\<forall>(ty, ps)\<in>set prefixes. \<forall>p\<in>set ps. \<not> startswith (snd (strip_sign t)) p)) \<or>
    (\<exists>ty rest. e = ElementIdNotNumeric (title ty) rest \<and> \<not> isnumeric rest)"
proof -
  obtain m' body where sign: "strip_sign t = (m', body)" by (cases "strip_sign t")
  show ?thesis
  proof (cases "find_prefix prefixes body")
    case None
    with assms sign have "e = UnknownFilterFormat body"
      by (simp add: parse_element_id_def)
    with None sign show ?thesis by (simp add: find_prefix_None)
  next
    case (Some found)
    obtain ty p where "found = (ty, p)" by (cases found)
    with assms sign Some show ?thesis
      by (auto simp: parse_element_id_def Let_def split: if_splits)
  qed
qed

lemmas string_defs =
  strip_def lstrip_def lstrip_chars_def whitespace_def lower_def lower_char_def
  uppercase_def lowercase_def startswith_def isnumeric_def numeric_chars_def

lemma parse_examples:
  "parse_element_id ''n123'' = Inr (Include, Node, ''123'')"
  "parse_element_id '' -Way: 5 '' = Inr (Exclude, Way, ''5'')"
  "parse_element_id ''node'' = Inl (ElementIdNotNumeric ''Node'' [])"
  "parse_element_id ''-123'' = Inl (UnknownFilterFormat ''123'')"
  by code_simp+

lemma dropWhile_skip:
  "(\<forall>x\<in>set xs. P x) \<Longrightarrow> ys = [] \<or> \<not> P (hd ys) \<Longrightarrow> dropWhile P (xs @ ys) = ys"
  by (cases ys) (auto simp: dropWhile_append)

lemma numeric_char_other:
  "c \<in> set numeric_chars \<Longrightarrow>
   c \<notin> set whitespace \<and> c \<notin> set '':;.,'' \<and> c \<notin> set ''oaes''"
  by (auto simp: numeric_chars_def whitespace_def)

lemma whitespace_char_other:
  "c \<in> set whitespace \<Longrightarrow>
   c \<notin> set '':;.,'' \<and> c \<notin> set ''oaes'' \<and> c \<noteq> CHR ''-'' \<and> c \<noteq> CHR ''+''"
  by (auto simp: whitespace_def)

lemma separator_char_other: "c \<in> set '':;.,'' \<Longrightarrow> c \<notin> set ''oaes''"
  by auto

lemma prefix_head:
  "(ty, ps) \<in> set prefixes \<Longrightarrow> p \<in> set ps \<Longrightarrow>
   p \<noteq> [] \<and> hd p \<in> set ''nwr''"
  by (auto simp: prefixes_def)

lemma find_prefix_each:
  "c \<notin> set ''oaes'' \<Longrightarrow>
   \<forall>(ty, p)\<in>set (concat (map (\<lambda>(ty, ps). map (Pair ty) ps) prefixes)).
     find_prefix prefixes (p @ c # cs) = Some (ty, p)"
  by (simp add: prefixes_def startswith_def)

lemma find_prefix_exact:
  assumes "(ty, ps) \<in> set prefixes" and "p \<in> set ps" and "c \<notin> set ''oaes''"
  shows "find_prefix prefixes (p @ c # cs) = Some (ty, p)"
proof -
  from assms(1,2)
  have "(ty, p) \<in> set (concat (map (\<lambda>(ty, ps). map (Pair ty) ps) prefixes))"
    by force
  with find_prefix_each [OF assms(3), of cs]
  have "case (ty, p) of (ty, p) \<Rightarrow> find_prefix prefixes (p @ c # cs) = Some (ty, p)"
    by (rule bspec)
  then show ?thesis by simp
qed

lemma nwr_char_other:
  "c \<in> set ''nwr'' \<Longrightarrow> c \<notin> set whitespace \<and> c \<noteq> CHR ''-'' \<and> c \<noteq> CHR ''+''"
  by (auto simp: whitespace_def)

lemma token_body_accepted:
  assumes "token_body ty i body"
  shows "\<exists>p. find_prefix prefixes body = Some (ty, p) \<and>
    lstrip (lstrip_chars '':;.,'' (drop (length p) body)) = i \<and>
    body \<noteq> [] \<and> hd body \<in> set ''nwr''"
proof -
  from assms obtain ps p seps ws where table: "(ty, ps) \<in> set prefixes" "p \<in> set ps"
    and seps: "set seps \<subseteq> set '':;.,''" and ws: "set ws \<subseteq> set whitespace"
    and i: "isnumeric i" and body: "body = p @ seps @ ws @ i"
    unfolding token_body_def by blast
  from i obtain d ds where ids: "i = d # ds" and d: "d \<in> set numeric_chars"
    by (cases i) (auto simp: isnumeric_def)
  from prefix_head [OF table] have p: "p \<noteq> []" "hd p \<in> set ''nwr''" by simp_all
  obtain c cs where rest: "seps @ ws @ i = c # cs"
    using ids by (cases "seps @ ws @ i") auto
  have "c \<in> set seps \<or> c \<in> set ws \<or> c = d"
    using rest ids by (cases seps; cases ws) auto
  with seps ws d have "c \<notin> set ''oaes''"
    using numeric_char_other [of c] whitespace_char_other [of c] separator_char_other [of c]
    by blast
  from find_prefix_exact [OF table this, of cs] rest body
  have found: "find_prefix prefixes body = Some (ty, p)" by simp
  have "hd (ws @ i) \<in> set ws \<or> hd (ws @ i) = d" using ids by (cases ws) auto
  with ws d have "hd (ws @ i) \<notin> set '':;.,''"
    using numeric_char_other [of "hd (ws @ i)"] whitespace_char_other [of "hd (ws @ i)"]
    by blast
  with seps have "lstrip_chars '':;.,'' (seps @ ws @ i) = ws @ i"
    unfolding lstrip_chars_def by (intro dropWhile_skip) auto
  moreover have "lstrip (ws @ i) = i"
    unfolding lstrip_def using ws d ids numeric_char_other [of d]
    by (intro dropWhile_skip) auto
  ultimately have "lstrip (lstrip_chars '':;.,'' (drop (length p) body)) = i"
    using body by simp
  with found p body show ?thesis by auto
qed

lemma signed_token_accepted:
  assumes "signed_token m body (lower (strip t))" and "body \<noteq> []" and "hd body \<in> set ''nwr''"
  shows "strip_sign t = (m, body)"
proof -
  let ?s = "lower (strip t)"
  from assms(1) obtain k ws where k: "m = Exclude \<longrightarrow> 0 < k"
    and ws: "set ws \<subseteq> set whitespace" and s: "?s = replicate k (sign_char m) @ ws @ body"
    unfolding signed_token_def by blast
  have hd_rest: "hd (ws @ body) \<in> set ws \<or> hd (ws @ body) = hd body"
    using assms(2) by (cases ws) auto
  with ws assms(3) have rest: "hd (ws @ body) \<notin> set whitespace \<or> hd (ws @ body) \<in> set ws"
    "hd (ws @ body) \<noteq> CHR ''-''" "hd (ws @ body) \<noteq> CHR ''+''"
    using nwr_char_other [of "hd body"] whitespace_char_other [of "hd (ws @ body)"]
    by auto
  have blanks: "lstrip (ws @ body) = body"
    unfolding lstrip_def using ws assms(2,3) nwr_char_other [of "hd body"]
    by (intro dropWhile_skip) auto
  show ?thesis
  proof (cases m)
    case Exclude
    with k obtain k' where k': "k = Suc k'" by (cases k) auto
    with s Exclude have start: "startswith ?s ''-''"
      by (simp add: startswith_def sign_char_def)
    have "lstrip_chars ''-'' ?s = ws @ body"
      unfolding s lstrip_chars_def using rest(2) assms(2) Exclude
      by (intro dropWhile_skip) (auto simp: sign_char_def)
    with start blanks Exclude show ?thesis
      by (simp add: strip_sign_def Let_def)
  next
    case Include
    have "?s \<noteq> []" using s assms(2) by simp
    moreover have "hd ?s \<noteq> CHR ''-''"
      unfolding s using rest(2) Include by (cases k) (auto simp: sign_char_def)
    ultimately have start: "\<not> startswith ?s ''-''"
      by (cases ?s) (auto simp: startswith_def)
    have "lstrip_chars ''+'' ?s = ws @ body"
      unfolding s lstrip_chars_def using rest(3) assms(2) Include
      by (intro dropWhile_skip) (auto simp: sign_char_def)
    with start blanks Include show ?thesis
      by (simp add: strip_sign_def Let_def)
  qed
qed

lemma run_of_char:
  "takeWhile (\<lambda>c. c \<in> set [x]) s = replicate (length (takeWhile (\<lambda>c. c \<in> set [x]) s)) x"
proof -
  have "\<forall>y\<in>set (takeWhile (\<lambda>c. c \<in> set [x]) s). y = x"
    by (auto dest: set_takeWhileD)
  then show ?thesis by (simp add: replicate_length_same)
qed

lemma strip_sign_shape:
  assumes "strip_sign t = (m, body)"
  shows "signed_token m body (lower (strip t))"
proof -
  let ?s = "lower (strip t)"
  let ?sign = "\<lambda>c. c \<in> set [sign_char m]"
  let ?blank = "\<lambda>c. c \<in> set whitespace"
  let ?k = "length (takeWhile ?sign ?s)"
  let ?ws = "takeWhile ?blank (dropWhile ?sign ?s)"
  from assms have m: "m = (if startswith ?s ''-'' then Exclude else Include)"
    and body: "body = lstrip (lstrip_chars [sign_char m] ?s)"
    by (auto simp: strip_sign_def Let_def sign_char_def split: if_splits)
  have "?s = takeWhile ?sign ?s @ ?ws @ dropWhile ?blank (dropWhile ?sign ?s)"
    by simp
  then have s: "?s = replicate ?k (sign_char m) @ ?ws @ body"
    using run_of_char [of "sign_char m" ?s] body
    by (simp add: lstrip_def lstrip_chars_def)
  have "0 < ?k" if "m = Exclude"
  proof -
    from that m have "startswith ?s ''-''" by (simp split: if_splits)
    then obtain r where "?s = CHR ''-'' # r"
      by (cases ?s) (auto simp: startswith_def)
    with that show ?thesis by (simp add: sign_char_def)
  qed
  moreover have "set ?ws \<subseteq> set whitespace" by (auto dest: set_takeWhileD)
  ultimately show ?thesis
    unfolding signed_token_def using s by blast
qed

lemma find_prefix_shape:
  assumes "find_prefix prefixes body = Some (ty, p)"
    and "isnumeric (lstrip (lstrip_chars '':;.,'' (drop (length p) body)))"
  shows "token_body ty (lstrip (lstrip_chars '':;.,'' (drop (length p) body))) body"
proof -
  let ?sep = "\<lambda>c. c \<in> set '':;.,''"
  let ?blank = "\<lambda>c. c \<in> set whitespace"
  let ?rest = "drop (length p) body"
  let ?seps = "takeWhile ?sep ?rest"
  let ?ws = "takeWhile ?blank (dropWhile ?sep ?rest)"
  let ?i = "lstrip (lstrip_chars '':;.,'' ?rest)"
  from find_prefix_Some [OF assms(1)] obtain ps where table: "(ty, ps) \<in> set prefixes"
    "p \<in> set ps" and start: "startswith body p" by blast
  from start have "body = p @ ?rest"
    by (metis append_take_drop_id startswith_def)
  moreover have "?rest = ?seps @ ?ws @ ?i"
    by (simp add: lstrip_def lstrip_chars_def)
  ultimately have "body = p @ ?seps @ ?ws @ ?i" by simp
  moreover have "set ?seps \<subseteq> set '':;.,''" "set ?ws \<subseteq> set whitespace"
    by (auto dest: set_takeWhileD)
  ultimately show ?thesis
    unfolding token_body_def using table assms(2) by blast
qed

lemma parse_element_id_accepts:
  "parse_element_id t = Inr (m, ty, i) \<longleftrightarrow>
   (\<exists>body. signed_token m body (lower (strip t)) \<and> token_body ty i body)"
proof
  assume parsed: "parse_element_id t = Inr (m, ty, i)"
  obtain m' body where sign: "strip_sign t = (m', body)" by (cases "strip_sign t")
  from parsed sign obtain p where found: "find_prefix prefixes body = Some (ty, p)"
    and num: "isnumeric (lstrip (lstrip_chars '':;.,'' (drop (length p) body)))"
    and i: "i = lstrip (lstrip_chars '':;.,'' (drop (length p) body))" and m: "m = m'"
    by (auto simp: parse_element_id_def Let_def split: option.splits if_splits)
  from strip_sign_shape [OF sign] find_prefix_shape [OF found num] i m
  show "\<exists>body. signed_token m body (lower (strip t)) \<and> token_body ty i body" by blast
next
  assume "\<exists>body. signed_token m body (lower (strip t)) \<and> token_body ty i body"
  then obtain body where sign: "signed_token m body (lower (strip t))"
    and body: "token_body ty i body" by blast
  from token_body_accepted [OF body] obtain p where
    found: "find_prefix prefixes body = Some (ty, p)"
    and i: "lstrip (lstrip_chars '':;.,'' (drop (length p) body)) = i"
    and head: "body \<noteq> []" "hd body \<in> set ''nwr''" by blast
  from body have "isnumeric i" unfolding token_body_def by blast
  with signed_token_accepted [OF sign head] found i
  show "parse_element_id t = Inr (m, ty, i)"
    by (simp add: parse_element_id_def Let_def)
qed

lemma parse_element_id_rejects:
  assumes "parse_element_id t = Inl e"
  shows "(find_prefix prefixes (snd (strip_sign t)) = None \<and>
      e = UnknownFilterFormat (snd (strip_sign t))) \<or>
    (\<exists>ty p. find_prefix prefixes (snd (strip_sign t)) = Some (ty, p) \<and>
       \<not> isnumeric (lstrip (lstrip_chars '':;.,'' (drop (length p) (snd (strip_sign t))))) \<and>
       e = ElementIdNotNumeric (title ty)
             (lstrip (lstrip_chars '':;.,'' (drop (length p) (snd (strip_sign t))))))"
proof -
  obtain m' body where sign: "strip_sign t = (m', body)" by (cases "strip_sign t")
  show ?thesis
  proof (cases "find_prefix prefixes body")
    case None
    with assms sign show ?thesis by (simp add: parse_element_id_def)
  next
    case (Some found)
    obtain ty p where "found = (ty, p)" by (cases found)
    with assms sign Some show ?thesis
      by (auto simp: parse_element_id_def Let_def split: if_splits)
  qed
qed
text \<open>
  C6. \<^verbatim>\<open>build_element_ids_dict\<close> parses every token into an include or exclude entry of
  one element type, and raises at the first token it cannot parse. The call returns exactly
  when every token parses; the result then holds, per mode and element type, exactly the ids
  of the tokens; otherwise the error raised is the one of the first malformed token. A token
  parses to the mode \<open>m\<close>, the type \<open>ty\<close> and the id \<open>i\<close> exactly when, stripped and
  lower-cased, it reads: signs (at least one \<^verbatim>\<open>-\<close> for the exclude sets, any number of
  \<^verbatim>\<open>+\<close> for the include sets), blanks, a prefix of the table for \<open>ty\<close>, separators among
  \<^verbatim>\<open>:;.,\<close>, blanks, and the numeric string \<open>i\<close>. A token that does not parse raises
  the unknown-format error with the text left after the signs when no prefix of the table
  starts that text, and otherwise the non-numeric error of the first matching prefix with the
  text left after that prefix, which is not numeric.
\<close>

theorem build_element_ids_dict_parses:
  "((\<exists>r. build_element_ids_dict ts = Inr r) \<longleftrightarrow>
      (\<forall>t\<in>set ts. \<exists>x. parse_element_id t = Inr x)) \<and>
   (\<forall>r. build_element_ids_dict ts = Inr r \<longrightarrow>
      (\<forall>m ty. r m ty = {i. \<exists>t\<in>set ts. parse_element_id t = Inr (m, ty, i)})) \<and>
   (\<forall>e. build_element_ids_dict ts = Inl e \<longrightarrow>
      (\<exists>good bad rest. ts = good @ bad # rest \<and>
         (\<forall>t\<in>set good. \<exists>x. parse_element_id t = Inr x) \<and> parse_element_id bad = Inl e)) \<and>
   (\<forall>m ty i. parse_element_id t = Inr (m, ty, i) \<longleftrightarrow>
      (\<exists>body. signed_token m body (lower (strip t)) \<and> token_body ty i body)) \<and>
   (\<forall>e. parse_element_id t = Inl e \<longrightarrow>
      (find_prefix prefixes (snd (strip_sign t)) = None \<and>
         e = UnknownFilterFormat (snd (strip_sign t))) \<or>
      (\<exists>ty p. find_prefix prefixes (snd (strip_sign t)) = Some (ty, p) \<and>
         \<not> isnumeric (lstrip (lstrip_chars '':;.,'' (drop (length p) (snd (strip_sign t))))) \<and>
         e = ElementIdNotNumeric (title ty)
               (lstrip (lstrip_chars '':;.,'' (drop (length p) (snd (strip_sign t)))))))"
proof -
  have returns: "(\<forall>t\<in>set ts. \<exists>x. parse_element_id t = Inr x) \<and>
      (\<forall>m ty. r m ty = {i. \<exists>t\<in>set ts. parse_element_id t = Inr (m, ty, i)})"
    if "build_element_ids_dict ts = Inr r" for r
  proof -
    from that have r: "build_from empty_element_ids ts = Inr r"
      by (simp add: build_element_ids_dict_def)
    from build_from_Inr [OF r] show ?thesis by (simp add: empty_element_ids_def)
  qed
  have raises: "\<exists>good bad rest. ts = good @ bad # rest \<and>
      (\<forall>t\<in>set good. \<exists>x. parse_element_id t = Inr x) \<and> parse_element_id bad = Inl e"
    if "build_element_ids_dict ts = Inl e" for e
  proof -
    from that have "build_from empty_element_ids ts = Inl e"
      by (simp add: build_element_ids_dict_def)
    then show ?thesis by (rule build_from_Inl)
  qed
  have "\<exists>r. build_element_ids_dict ts = Inr r"
    if all: "\<forall>t\<in>set ts. \<exists>x. parse_element_id t = Inr x"
  proof (cases "build_element_ids_dict ts")
    case (Inl e)
    from raises [OF Inl] obtain good bad rest where "ts = good @ bad # rest"
      "parse_element_id bad = Inl e" by blast
    with all have False by auto
    then show ?thesis ..
  next
    case (Inr r)
    then show ?thesis by blast
  qed
  with returns have "(\<exists>r. build_element_ids_dict ts = Inr r) \<longleftrightarrow>
      (\<forall>t\<in>set ts. \<exists>x. parse_element_id t = Inr x)" by blast
  moreover from returns have "\<forall>r. build_element_ids_dict ts = Inr r \<longrightarrow>
      (\<forall>m ty. r m ty = {i. \<exists>t\<in>set ts. parse_element_id t = Inr (m, ty, i)})" by blast
  moreover from raises have "\<forall>e. build_element_ids_dict ts = Inl e \<longrightarrow>
      (\<exists>good bad rest. ts = good @ bad # rest \<and>
         (\<forall>t\<in>set good. \<exists>x. parse_element_id t = Inr x) \<and> parse_element_id bad = Inl e)"
    by blast
  moreover have "\<forall>m ty i. parse_element_id t = Inr (m, ty, i) \<longleftrightarrow>
      (\<exists>body. signed_token m body (lower (strip t)) \<and> token_body ty i body)"
    by (intro allI parse_element_id_accepts)
  moreover have "\<forall>e. parse_element_id t = Inl e \<longrightarrow>
      (find_prefix prefixes (snd (strip_sign t)) = None \<and>
         e = UnknownFilterFormat (snd (strip_sign t))) \<or>
      (\<exists>ty p. find_prefix prefixes (snd (strip_sign t)) = Some (ty, p) \<and>
         \<not> isnumeric (lstrip (lstrip_chars '':;.,'' (drop (length p) (snd (strip_sign t))))) \<and>
         e = ElementIdNotNumeric (title ty)
               (lstrip (lstrip_chars '':;.,'' (drop (length p) (snd (strip_sign t))))))"
    by (intro allI impI parse_element_id_rejects)
  ultimately show ?thesis by (intro conjI)
qed

lemma token_examples:
  "lower (strip ''R5'') = ''r5''"
  "lower (strip (CHR 0xA0 # ''-- n:'' @ [CHR 0x85, CHR 0xB2, CHR 0xBD])) =
     ''-- n:'' @ [CHR 0x85, CHR 0xB2, CHR 0xBD]"
  by code_simp+

theorem build_element_ids_dict_parses_witness:
  "(\<exists>r. build_element_ids_dict [''n123'', '' -Way: 5 ''] = Inr r \<and>
        r Include Node = {''123''} \<and> r Exclude Way = {''5''} \<and> r Include Way = {}) \<and>
   build_element_ids_dict [''n123'', ''-123'', ''node''] = Inl (UnknownFilterFormat ''123'') \<and>
   parse_element_id ''R5'' = Inr (Include, Relation, ''5'') \<and>
   parse_element_id (CHR 0xA0 # ''-- n:'' @ [CHR 0x85, CHR 0xB2, CHR 0xBD]) =
     Inr (Exclude, Node, [CHR 0xB2, CHR 0xBD]) \<and>
   find_prefix prefixes (snd (strip_sign ''node'')) = Some (Node, ''node'')"
proof -
  let ?ts = "[''n123'', '' -Way: 5 '']"
  let ?t = "CHR 0xA0 # ''-- n:'' @ [CHR 0x85, CHR 0xB2, CHR 0xBD]"
  note parses = build_element_ids_dict_parses
  have "\<forall>t\<in>set ?ts. \<exists>x. parse_element_id t = Inr x"
    by (simp add: parse_examples)
  with parses [of ?ts "''R5''"] obtain r where r: "build_element_ids_dict ?ts = Inr r"
    by blast
  with parses [of ?ts "''R5''"]
  have sets: "\<And>m ty. r m ty = {i. \<exists>t\<in>set ?ts. parse_element_id t = Inr (m, ty, i)}"
    by blast
  have "r Include Node = {''123''}" "r Exclude Way = {''5''}" "r Include Way = {}"
    unfolding sets by (auto simp: parse_examples)
  moreover have "build_element_ids_dict [''n123'', ''-123'', ''node''] =
      Inl (UnknownFilterFormat ''123'')"
    by (simp add: build_element_ids_dict_def parse_examples)
  moreover have "parse_element_id ''R5'' = Inr (Include, Relation, ''5'')"
  proof -
    have "signed_token Include ''r5'' (lower (strip ''R5''))"
      unfolding signed_token_def token_examples
      by (rule exI [of _ 0], rule exI [of _ "[]"]) simp
    moreover have "token_body Relation ''5'' ''r5''"
      unfolding token_body_def
      by (rule exI [of _ "[''relations'', ''relation'', ''rel'', ''r'']"], rule exI [of _ "''r''"],
          rule exI [of _ "[]"], rule exI [of _ "[]"])
        (simp add: prefixes_def isnumeric_def numeric_chars_def)
    ultimately show ?thesis using parses [of "[]" "''R5''"] by blast
  qed
  moreover have "parse_element_id ?t = Inr (Exclude, Node, [CHR 0xB2, CHR 0xBD])"
  proof -
    have "signed_token Exclude (''n:'' @ [CHR 0x85, CHR 0xB2, CHR 0xBD]) (lower (strip ?t))"
      unfolding signed_token_def token_examples
      by (rule exI [of _ 2], rule exI [of _ "'' ''"])
        (simp add: sign_char_def whitespace_def numeral_2_eq_2)
    moreover have "token_body Node [CHR 0xB2, CHR 0xBD] (''n:'' @ [CHR 0x85, CHR 0xB2, CHR 0xBD])"
      unfolding token_body_def
      by (rule exI [of _ "[''nodes'', ''node'', ''n'']"], rule exI [of _ "''n''"],
          rule exI [of _ "'':''"], rule exI [of _ "[CHR 0x85]"])
        (simp add: prefixes_def isnumeric_def numeric_chars_def whitespace_def)
    ultimately show ?thesis using parses [of "[]" ?t] by blast
  qed
  moreover have "find_prefix prefixes (snd (strip_sign ''node'')) = Some (Node, ''node'')"
    by code_simp
  ultimately show ?thesis using r by blast
qed

section \<open>Properties of \<^verbatim>\<open>merge_and_sort_diffs\<close>\<close>



lemma entries_of_Cons:
  "entries_of t ((k, v) # d) = (if t = k then v else entries_of t d)"
  by (simp add: entries_of_def)

lemma entries_of_absent: "t \<notin> fst ` set d \<Longrightarrow> entries_of t d = []"
  by (cases "map_of d t") (auto simp: entries_of_def dest: map_of_SomeD intro: rev_image_eqI)

lemma add_elements_lookup:
  "add_elements r d = Inr r' \<Longrightarrow> distinct (map fst d) \<Longrightarrow>
   map_of r' t = map_option (\<lambda>old. old @ entries_of t d) (map_of r t)"
proof (induction r d arbitrary: r' rule: add_elements.induct)
  case (1 result)
  then show ?case by (simp add: entries_of_def option.map_ident)
next
  case (2 result element_type elements rest)
  then show ?case
    by (auto split: option.splits simp: update_conv' entries_of_Cons entries_of_absent)
qed



lemma merge_diffs_lookup:
  "merge_diffs r ds = Inr r' \<Longrightarrow> \<forall>d\<in>set ds. wf_dict d \<Longrightarrow>
   map_of r' t = map_option (\<lambda>old. old @ concat (map (entries_of t) ds)) (map_of r t)"
proof (induction r ds arbitrary: r' rule: merge_diffs.induct)
  case (1 result)
  then show ?case by (simp add: option.map_ident)
next
  case (2 result d rest)
  then show ?case
    by (auto split: sum.splits simp: wf_dict_def add_elements_lookup option.map_comp comp_def)
qed



lemma sorted_reverse_sorted: "sorted_wrt (\<lambda>a b. k b \<le> k a) (sorted_reverse k xs)"
proof -
  have "sorted (map k (sort_key k (rev xs)))" by simp
  then have "sorted_wrt (\<lambda>a b. k a \<le> k b) (sort_key k (rev xs))"
    by (simp add: sorted_map)
  then show ?thesis
    by (simp add: sorted_reverse_def sorted_wrt_rev)
qed

lemma sorted_reverse_stable:
  "filter (\<lambda>e. k e = c) (sorted_reverse k xs) = filter (\<lambda>e. k e = c) xs"
  by (simp add: sorted_reverse_def sort_key_stable flip: rev_filter)

lemma map_of_sort_diff:
  "map_of (sort_diff r) t = map_option (sorted_reverse timestamp) (map_of r t)"
  by (simp add: sort_diff_def map_of_map)

lemma merge_and_sort_diffs_lookup:
  assumes "merge_and_sort_diffs diffs = Inr result" and "\<forall>d\<in>set diffs. wf_dict d"
    and "map_of result t = Some out"
  shows "out = sorted_reverse timestamp (concat (map (entries_of t) diffs))"
proof -
  from assms(1) obtain first rest merged where diffs: "diffs = first # rest"
    and merged: "merge_diffs first rest = Inr merged" and result: "result = sort_diff merged"
    by (auto simp: merge_and_sort_diffs_def split: list.splits sum.splits)
  from assms(2) diffs have "\<forall>d\<in>set rest. wf_dict d" by simp
  from merge_diffs_lookup [OF merged this, of t]
  have lookup: "map_of merged t =
      map_option (\<lambda>old. old @ concat (map (entries_of t) rest)) (map_of first t)" .
  from assms(3) result obtain old where old: "map_of first t = Some old"
    and out: "out = sorted_reverse timestamp (old @ concat (map (entries_of t) rest))"
    by (auto simp: map_of_sort_diff lookup)
  from old have "entries_of t first = old" by (simp add: entries_of_def)
  with out diffs show ?thesis by simp
qed



text \<open>
  C2, as the code has it. When \<^verbatim>\<open>merge_and_sort_diffs\<close> returns, the list of every element
  type is sorted by non-increasing timestamp, and entries with equal timestamps keep the
  order they have in the concatenation of the input lists: the sort is stable and its key
  is the timestamp alone, so ties are not ordered by changeset id or version.
\<close>

theorem merge_and_sort_diffs_newest_first:
  assumes "merge_and_sort_diffs diffs = Inr result" and "\<forall>d\<in>set diffs. wf_dict d"
    and "map_of result t = Some out"
  shows "sorted_wrt (\<lambda>x y. timestamp y \<le> timestamp x) out \<and>
    (\<forall>k. filter (\<lambda>e. timestamp e = k) out =
          filter (\<lambda>e. timestamp e = k) (concat (map (entries_of t) diffs)))"
proof -
  from merge_and_sort_diffs_lookup [OF assms]
  have "out = sorted_reverse timestamp (concat (map (entries_of t) diffs))" .
  then show ?thesis
    by (simp add: sorted_reverse_sorted sorted_reverse_stable)
qed

theorem merge_and_sort_diffs_newest_first_witness:
  "\<exists>out. map_of [(''node'',
        [\<lparr>timestamp = 9, changeset_id = 2, version = 4, ref = (Node, 7)\<rparr>,
         \<lparr>timestamp = 5, changeset_id = 1, version = 3, ref = (Node, 7)\<rparr>,
         \<lparr>timestamp = 5, changeset_id = 2, version = 1, ref = (Node, 8)\<rparr>])] ''node'' = Some out \<and>
     sorted_wrt (\<lambda>x y. timestamp y \<le> timestamp x) out \<and>
     filter (\<lambda>e. timestamp e = 5) out =
       [\<lparr>timestamp = 5, changeset_id = 1, version = 3, ref = (Node, 7)\<rparr>,
        \<lparr>timestamp = 5, changeset_id = 2, version = 1, ref = (Node, 8)\<rparr>]"
proof -
  let ?a = "\<lparr>timestamp = 5, changeset_id = 1, version = 3, ref = (Node, 7)\<rparr>"
  let ?b = "\<lparr>timestamp = 5, changeset_id = 2, version = 1, ref = (Node, 8)\<rparr>"
  let ?c = "\<lparr>timestamp = 9, changeset_id = 2, version = 4, ref = (Node, 7)\<rparr>"
  let ?diffs = "[[(''node'', [?a])], [(''node'', [?b, ?c])]]"
  have run: "merge_and_sort_diffs ?diffs = Inr [(''node'', [?c, ?a, ?b])]"
    by (simp add: merge_and_sort_diffs_def sort_diff_def sorted_reverse_def)
  have wf: "\<forall>d\<in>set ?diffs. wf_dict d" by (simp add: wf_dict_def)
  have out: "map_of [(''node'', [?c, ?a, ?b])] ''node'' = Some [?c, ?a, ?b]" by simp
  from merge_and_sort_diffs_newest_first [OF run wf out]
  have "sorted_wrt (\<lambda>x y. timestamp y \<le> timestamp x) [?c, ?a, ?b]"
    and "filter (\<lambda>e. timestamp e = 5) [?c, ?a, ?b] =
      filter (\<lambda>e. timestamp e = 5) (concat (map (entries_of ''node'') ?diffs))"
    by blast+
  then show ?thesis by (simp add: entries_of_def)
qed

text \<open>
  C2 as stated fails: two entries with the same timestamp, the first of changeset 1 and the
  second of changeset 2, come out in their input order, which is ascending in the
  changeset id.
\<close>

theorem merge_and_sort_diffs_ties_counterexample:
  "merge_and_sort_diffs
     [[(''node'', [\<lparr>timestamp = 5, changeset_id = 1, version = 3, ref = (Node, 7)\<rparr>])],
      [(''node'', [\<lparr>timestamp = 5, changeset_id = 2, version = 1, ref = (Node, 8)\<rparr>])]]
   = Inr [(''node'', [\<lparr>timestamp = 5, changeset_id = 1, version = 3, ref = (Node, 7)\<rparr>,
                     \<lparr>timestamp = 5, changeset_id = 2, version = 1, ref = (Node, 8)\<rparr>])] \<and>
   \<not> sorted_wrt spec_order
       [\<lparr>timestamp = 5, changeset_id = 1, version = 3, ref = (Node, 7)\<rparr>,
        \<lparr>timestamp = 5, changeset_id = 2, version = 1, ref = (Node, 8)\<rparr>]"
  by (simp add: merge_and_sort_diffs_def sort_diff_def sorted_reverse_def spec_order_def)




section \<open>Runs and their events\<close>

lemma seq_cases [consumes 1, case_names stop go]:
  assumes "seq m f = (fl, tr)"
  obtains (stop) fl' where "m = (fl', tr)" "stopped fl' fl"
    | (go) x tr1 tr2 where "m = (Next x, tr1)" "f x = (fl, tr2)" "tr = tr1 @ tr2"
proof (cases m)
  case (Pair fl' tr')
  show ?thesis
  proof (cases fl')
    case (Raise e)
    with Pair assms have "m = (fl', tr)" "stopped fl' fl" by (auto simp: seq_def)
    then show ?thesis by (rule stop)
  next
    case (Return c)
    with Pair assms have "m = (fl', tr)" "stopped fl' fl" by (auto simp: seq_def)
    then show ?thesis by (rule stop)
  next
    case (Next x)
    obtain r tr2 where fx: "f x = (r, tr2)" by (cases "f x")
    with Pair Next assms have "m = (Next x, tr')" "f x = (fl, tr2)" "tr = tr' @ tr2"
      by (auto simp: seq_def)
    then show ?thesis by (rule go)
  qed
qed

lemma seq_emit: "seq (emit m) f = (fst (f ()), Print m # snd (f ()))"
  by (simp add: seq_def emit_def split: prod.splits)

lemma seq_call_Inr: "seq (call ev (Inr x)) f = (fst (f x), ev # snd (f x))"
  by (simp add: seq_def call_def split: prod.splits)

lemma seq_call_Inl: "seq (call ev (Inl e)) f = (Raise e, [ev])"
  by (simp add: seq_def call_def)

lemma seq_lift_Inr: "seq (lift (Inr x)) f = f x"
  by (simp add: seq_def lift_def split: prod.splits)

lemma seq_lift_Inl: "seq (lift (Inl e)) f = (Raise e, [])"
  by (simp add: seq_def lift_def)

lemma seq_proceed: "seq (proceed x) f = f x"
  by (simp add: seq_def proceed_def split: prod.splits)

lemma seq_ret: "seq (ret c) f = (Return c, [])"
  by (simp add: seq_def ret_def)

lemma seq_raise: "seq (raise e) f = (Raise e, [])"
  by (simp add: seq_def raise_def)

lemmas seq_simps =
  seq_emit seq_call_Inr seq_call_Inl seq_lift_Inr seq_lift_Inl seq_proceed seq_ret seq_raise

lemma events_in_seq:
  assumes "events_in P m" and "\<And>x. events_in P (f x)"
  shows "events_in P (seq m f)"
proof -
  obtain fl tr where run: "seq m f = (fl, tr)" by (cases "seq m f")
  then show ?thesis
  proof (cases rule: seq_cases)
    case (stop fl')
    with assms(1) run show ?thesis by (simp add: events_in_def)
  next
    case (go x tr1 tr2)
    with assms(1) assms(2) [of x] run show ?thesis by (simp add: events_in_def)
  qed
qed

lemma events_in_emit: "P (Print m) \<Longrightarrow> events_in P (emit m)"
  by (simp add: events_in_def emit_def)

lemma events_in_call: "P ev \<Longrightarrow> events_in P (call ev outcome)"
  by (simp add: events_in_def call_def split: sum.splits)

lemma events_in_silent:
  "events_in P (lift outcome)" "events_in P (proceed x)" "events_in P (ret c)"
  "events_in P (raise e)"
  by (simp_all add: events_in_def lift_def proceed_def ret_def raise_def split: sum.splits)

lemma events_in_emit_all: "(\<And>m. m \<in> set ms \<Longrightarrow> P (Print m)) \<Longrightarrow> events_in P (emit_all ms)"
  by (induction ms) (simp_all add: events_in_def seq_emit)

lemma events_in_if:
  "(c \<Longrightarrow> events_in P x) \<Longrightarrow> (\<not> c \<Longrightarrow> events_in P y) \<Longrightarrow> events_in P (if c then x else y)"
  by simp

lemma events_in_option:
  "events_in P x \<Longrightarrow> (\<And>v. events_in P (f v)) \<Longrightarrow>
   events_in P (case opt of None \<Rightarrow> x | Some v \<Rightarrow> f v)"
  by (cases opt) simp_all

lemma events_in_sum:
  "(\<And>e. events_in P (f e)) \<Longrightarrow> (\<And>v. events_in P (g v)) \<Longrightarrow>
   events_in P (case s of Inl e \<Rightarrow> f e | Inr v \<Rightarrow> g v)"
  by (cases s) simp_all

lemma events_in_prod:
  "(\<And>x y. events_in P (f x y)) \<Longrightarrow> events_in P (case p of (x, y) \<Rightarrow> f x y)"
  by (cases p) simp

lemmas events_in_intros =
  events_in_seq events_in_emit events_in_call events_in_silent events_in_if
  events_in_option events_in_sum events_in_prod

lemma events_inD: "events_in P (fl, tr) \<Longrightarrow> ev \<in> set tr \<Longrightarrow> P ev"
  by (simp add: events_in_def list_all_iff)

lemma startup_stage: "events_in (\<lambda>ev. stage ev = 0) (startup cfg env a)"
  unfolding startup_def check_changeset_ids_def login_def check_limits_def Let_def
  by (intro events_in_intros) simp_all

lemma download_changeset_stage:
  "events_in (\<lambda>ev. stage ev = 1) (download_changeset cfg env ue um qf cid diffs)"
  unfolding download_changeset_def check_author_def fetch_diff_def Let_def
  by (intro events_in_intros) simp_all

lemma download_changesets_stage:
  "events_in (\<lambda>ev. stage ev = 1) (download_changesets cfg env ue um qf ids diffs)"
proof (induction ids arbitrary: diffs)
  case Nil
  show ?case unfolding download_changesets.simps by (rule events_in_silent)
next
  case (Cons cid ids)
  show ?case unfolding download_changesets.simps
    by (rule events_in_seq [OF download_changeset_stage Cons.IH])
qed

lemma generate_revert_stage: "events_in (\<lambda>ev. stage ev = 2) (generate_revert env t diffs)"
  unfolding generate_revert_def
  by (intro events_in_intros) simp_all

lemma print_warn_elements_stage: "events_in (\<lambda>ev. stage ev = 3) (print_warn_elements w)"
  unfolding print_warn_elements_def
  by (rule events_in_emit_all) auto

lemma post_comments_stage: "events_in (\<lambda>ev. stage ev = 3) (post_comments env t n i ids)"
  by (induction ids arbitrary: i)
     (simp_all add: Let_def events_in_silent events_in_seq events_in_call events_in_emit)

lemma finish_stage: "events_in (\<lambda>ev. stage ev = 3) (finish cfg env a ids ue ivn)"
  unfolding finish_def save_osc_def upload_def after_upload_def Let_def
    filter_discussion_changesets_def
  by (intro events_in_intros print_warn_elements_stage post_comments_stage) simp_all

lemma main_cases [consumes 1, case_names startup download generate finish]:
  assumes "main cfg env a = (fl, tr)"
  obtains
    (startup) fl0 where "startup cfg env a = (fl0, tr)" "stopped fl0 fl"
  | (download) ids user tr0 fl1 tr1 where
      "startup cfg env a = (Next (ids, user), tr0)"
      "download_changesets cfg env (changesets_count user) (is_osm_moderator cfg (roles user))
         (query_filter a) ids [] = (fl1, tr1)"
      "stopped fl1 fl" "tr = tr0 @ tr1"
  | (generate) ids user tr0 diffs tr1 fl2 tr2 where
      "startup cfg env a = (Next (ids, user), tr0)"
      "download_changesets cfg env (changesets_count user) (is_osm_moderator cfg (roles user))
         (query_filter a) ids [] = (Next diffs, tr1)"
      "generate_revert env (set (normalise (only_tags a))) diffs = (fl2, tr2)"
      "stopped fl2 fl" "tr = tr0 @ tr1 @ tr2"
  | (finish) ids user tr0 diffs tr1 ivn tr2 tr3 where
      "startup cfg env a = (Next (ids, user), tr0)"
      "download_changesets cfg env (changesets_count user) (is_osm_moderator cfg (roles user))
         (query_filter a) ids [] = (Next diffs, tr1)"
      "generate_revert env (set (normalise (only_tags a))) diffs = (Next ivn, tr2)"
      "finish cfg env a ids (changesets_count user) ivn = (fl, tr3)"
      "tr = tr0 @ tr1 @ tr2 @ tr3"
proof -
  from assms [unfolded main_def] show ?thesis
  proof (cases rule: seq_cases)
    case (stop fl')
    then show ?thesis by (rule startup)
  next
    case A: (go x tr0 r0)
    obtain ids user where x: "x = (ids, user)" by (cases x)
    from A(2) [unfolded x prod.case] show ?thesis
    proof (cases rule: seq_cases)
      case (stop fl')
      show ?thesis
        by (rule download [OF A(1) [unfolded x] stop(1) stop(2)]) (simp add: A(3))
    next
      case B: (go diffs tr1 r1)
      from B(2) show ?thesis
      proof (cases rule: seq_cases)
        case (stop fl')
        show ?thesis
          by (rule generate [OF A(1) [unfolded x] B(1) stop(1) stop(2)]) (simp add: A(3) B(3))
      next
        case C: (go ivn tr2 tr3)
        show ?thesis
          by (rule finish [OF A(1) [unfolded x] B(1) C(1) C(2)]) (simp add: A(3) B(3) C(3))
      qed
    qed
  qed
qed


section \<open>The start-up and the download loop\<close>

lemma stoppedE:
  assumes "stopped fl' fl"
  obtains (raise) e where "fl' = Raise e" "fl = Raise e"
    | (return) c where "fl' = Return c" "fl = Return c"
  using assms by (cases fl') auto

lemma stopped_Next [simp]: "\<not> stopped fl' (Next x)"
  by (cases fl') auto

lemma check_changeset_ids_run:
  "check_changeset_ids xs = (fl, tr) \<Longrightarrow>
   tr = [] \<and> (fl = Raise AssertionError \<or>
     (fl = Next (sort (remdups (normalise xs))) \<and> normalise xs \<noteq> [] \<and>
      list_all isnumeric (sort (remdups (normalise xs)))))"
  by (auto simp: check_changeset_ids_def Let_def raise_def proceed_def split: if_splits)

lemma login_user:
  assumes "login env a = (fl, tr)" and "CallGetAuthorizedUser \<in> set tr"
    and "get_authorized_user env = Inr user"
  shows "fl = Next user"
  using assms
  by (auto simp: login_def Let_def seq_def emit_def call_def lift_def proceed_def
      split: prod.splits option.splits sum.splits if_splits flow.splits)

lemma login_Next:
  assumes "login env a = (Next user, tr)"
  shows "get_authorized_user env = Inr user \<and> CallGetAuthorizedUser \<in> set tr"
  using assms
  by (auto simp: login_def Let_def seq_def emit_def call_def lift_def proceed_def
      split: prod.splits option.splits sum.splits if_splits flow.splits)

lemma startup_limits:
  assumes "startup cfg env a = (fl0, tr0)" and "CallGetAuthorizedUser \<in> set tr0"
    and "get_authorized_user env = Inr user"
  shows "\<exists>fll trl before.
    check_limits cfg (changesets_count user) (is_osm_moderator cfg (roles user))
      (length (sort (remdups (normalise (changeset_ids a))))) = (fll, trl) \<and>
    tr0 = before @ trl \<and>
    (stopped fll fl0 \<or>
     fll = Next () \<and> fl0 = Next (sort (remdups (normalise (changeset_ids a))), user))"
proof -
  from assms(1) [unfolded startup_def] show ?thesis
  proof (cases rule: seq_cases)
    case (stop fl')
    with assms(2) check_changeset_ids_run [of "changeset_ids a" fl' tr0] show ?thesis by simp
  next
    case A: (go ids tr1 r1)
    from check_changeset_ids_run [OF A(1)]
    have tr1: "tr1 = []" and ids: "ids = sort (remdups (normalise (changeset_ids a)))"
      by auto
    from A(2) show ?thesis
    proof (cases rule: seq_cases)
      case (stop fl')
      with assms(2,3) A(3) tr1 login_user [of env a fl' r1 user] show ?thesis by auto
    next
      case B: (go user' tr2 r2)
      from login_Next [OF B(1)] assms(3) have user: "user' = user" by simp
      from B(2) [unfolded Let_def] show ?thesis
      proof (cases rule: seq_cases)
        case (stop fl')
        then show ?thesis by (auto simp: emit_def)
      next
        case C: (go u tr3 r3)
        from C(2) show ?thesis
        proof (cases rule: seq_cases)
          case (stop fl')
          with A(3) B(3) C(3) tr1 ids user show ?thesis by auto
        next
          case D: (go v tr4 r4)
          from D(2) have "fl0 = Next (ids, user')" "r4 = []" by (simp_all add: proceed_def)
          with A(3) B(3) C(3) D(1,3) tr1 ids user show ?thesis by auto
        qed
      qed
    qed
  qed
qed

lemma startup_Next:
  assumes "startup cfg env a = (Next (ids, user), tr0)"
  shows "ids = sort (remdups (normalise (changeset_ids a))) \<and>
    get_authorized_user env = Inr user \<and> CallGetAuthorizedUser \<in> set tr0"
proof -
  from assms [unfolded startup_def] show ?thesis
  proof (cases rule: seq_cases)
    case (stop fl')
    then show ?thesis by simp
  next
    case A: (go ids' tr1 r1)
    from check_changeset_ids_run [OF A(1)]
    have ids: "ids' = sort (remdups (normalise (changeset_ids a)))" by auto
    from A(2) show ?thesis
    proof (cases rule: seq_cases)
      case (stop fl')
      then show ?thesis by simp
    next
      case B: (go user' tr2 r2)
      note login = login_Next [OF B(1)]
      from B(2) [unfolded Let_def] show ?thesis
      proof (cases rule: seq_cases)
        case (stop fl')
        then show ?thesis by simp
      next
        case C: (go u tr3 r3)
        from C(2) show ?thesis
        proof (cases rule: seq_cases)
          case (stop fl')
          then show ?thesis by simp
        next
          case D: (go v tr4 r4)
          from D(2) have "ids = ids'" "user = user'" by (simp_all add: proceed_def)
          with ids login A(3) B(3) show ?thesis by auto
        qed
      qed
    qed
  qed
qed

lemma check_limits_too_few_edits:
  assumes "changesets_limit_config cfg um = Inr table" and "changesets_limit table ue = Inr 0"
    and "py_min (filter (\<lambda>k. k > 0) (map fst table)) = Inr min_edits"
  shows "check_limits cfg ue um n = (Return (- 1), [Print (MsgNeedEdits min_edits)])"
  using assms by (simp add: check_limits_def seq_simps ret_def)

lemma check_limits_too_many:
  assumes "changesets_limit_config cfg um = Inr table" and "changesets_limit table ue = Inr l"
    and "l \<noteq> 0" and "l < int n"
  shows "\<exists>more. check_limits cfg ue um n = (Return (- 1), Print (MsgSafetyLimit l) # more)"
proof -
  let ?hint = "case py_min (filter (\<lambda>k. k > ue) (map fst table)) of
      Inl _ \<Rightarrow> proceed ()
    | Inr limit_increase \<Rightarrow>
        if limit_increase \<noteq> 0 then emit (MsgIncreaseLimit limit_increase) else proceed ()"
  obtain trx where hint: "?hint = (Next (), trx)"
    by (cases ?hint) (auto simp: proceed_def emit_def split: sum.splits if_splits)
  have rest: "seq ?hint (\<lambda>_. ret (- 1) :: unit run) = (Return (- 1), trx)"
    unfolding hint by (simp add: seq_def ret_def)
  have "check_limits cfg ue um n =
      (fst (seq ?hint (\<lambda>_. ret (- 1) :: unit run)),
       Print (MsgSafetyLimit l) # snd (seq ?hint (\<lambda>_. ret (- 1) :: unit run)))"
    using assms by (simp add: check_limits_def seq_simps)
  then show ?thesis unfolding rest by simp
qed

lemma check_author_events:
  "events_in (\<lambda>ev. ev = CallGetUser (cs_uid c) \<or> ev = Print MsgModeratorsChangesets)
     (check_author cfg env ue um c)"
  unfolding check_author_def
  by (intro events_in_intros) simp_all

lemma check_author_moderator:
  assumes "ue < CHANGESETS_LIMIT_MODERATOR_REVERT cfg" and "\<not> um"
    and "get_user env (cs_uid c) = Inr (Some cu)" and "is_osm_moderator cfg (roles cu)"
  shows "check_author cfg env ue um c =
    (Return (- 1), [CallGetUser (cs_uid c), Print MsgModeratorsChangesets])"
  using assms by (simp add: check_author_def seq_simps ret_def)

lemma check_author_guard:
  assumes "check_author cfg env ue um c = (fl, tr)" and "CallGetUser u \<in> set tr"
  shows "ue < CHANGESETS_LIMIT_MODERATOR_REVERT cfg \<and> \<not> um \<and> u = cs_uid c"
proof -
  have "ue < CHANGESETS_LIMIT_MODERATOR_REVERT cfg \<and> \<not> um"
    using assms by (auto simp: check_author_def proceed_def split: if_splits)
  moreover from check_author_events [of c cfg env ue um] assms
  have "u = cs_uid c" by (auto dest: events_inD)
  ultimately show ?thesis by simp
qed

lemma fetch_diff_empty:
  "changeset_size c = 0 \<Longrightarrow>
   fetch_diff env qf c diffs =
     (Next diffs, [Print (MsgOsmElements (length (cs_partition c) + 1) 0)])"
  by (simp add: fetch_diff_def Let_def seq_simps proceed_def)

lemma fetch_diff_events:
  "events_in (\<lambda>ev. ev = CallHistory c (length (cs_partition c) + 1) qf \<or> (\<exists>m. ev = Print m))
     (fetch_diff env qf c diffs)"
  unfolding fetch_diff_def Let_def
  by (intro events_in_intros) simp_all

lemma diff_size_Nil: "diff_size [] = 0"
  by (simp add: diff_size_def)

lemma fetch_diff_too_big:
  assumes "get_changeset_elements_history env c (length (cs_partition c) + 1) qf = Inr (Some d)"
    and "changeset_size c < diff_size d" and "changeset_size c \<noteq> 0"
  shows "fetch_diff env qf c diffs =
    (Raise AssertionError,
     [Print (MsgOsmElements (length (cs_partition c) + 1) (changeset_size c)),
      Print (MsgOverpassPending (length (cs_partition c) + 1) (length (cs_partition c))),
      CallHistory c (length (cs_partition c) + 1) qf])"
proof -
  from assms(2) have "d \<noteq> []" by (auto simp: diff_size_Nil)
  with assms show ?thesis
    by (simp add: fetch_diff_def Let_def seq_simps raise_def)
qed

lemma fetch_diff_Next:
  assumes "fetch_diff env qf c diffs = (Next ds, tr)" and "changeset_size c \<noteq> 0"
  shows "\<exists>d. get_changeset_elements_history env c (length (cs_partition c) + 1) qf
      = Inr (Some d) \<and> ds = diffs @ [d] \<and> diff_size d \<le> changeset_size c"
  using assms
  by (auto simp: fetch_diff_def Let_def seq_simps seq_def emit_def call_def proceed_def
      ret_def raise_def split: sum.splits option.splits if_splits)

lemma download_changeset_cases [consumes 1, case_names bad_id no_changeset author fetch]:
  assumes "download_changeset cfg env ue um qf cid diffs = (fl, tr)"
  obtains
    (bad_id) e where "py_int cid = Inl e" "fl = Raise e" "tr = []"
  | (no_changeset) i e where "py_int cid = Inr i" "get_changeset env i = Inl e" "fl = Raise e"
      "tr = [Print (MsgDownloading i), Print MsgOsmPending, CallGetChangeset i]"
  | (author) i c fl' tr' where "py_int cid = Inr i" "get_changeset env i = Inr c"
      "check_author cfg env ue um c = (fl', tr')" "stopped fl' fl"
      "tr = [Print (MsgDownloading i), Print MsgOsmPending, CallGetChangeset i] @ tr'"
  | (fetch) i c tr' tr'' where "py_int cid = Inr i" "get_changeset env i = Inr c"
      "check_author cfg env ue um c = (Next (), tr')"
      "fetch_diff env qf c diffs = (fl, tr'')"
      "tr = [Print (MsgDownloading i), Print MsgOsmPending, CallGetChangeset i] @ tr' @ tr''"
proof (cases "py_int cid")
  case (Inl e)
  with assms have "fl = Raise e" "tr = []"
    by (simp_all add: download_changeset_def seq_simps)
  with Inl show ?thesis by (rule bad_id)
next
  case i: (Inr i)
  show ?thesis
  proof (cases "get_changeset env i")
    case (Inl e)
    with assms i have "fl = Raise e"
      "tr = [Print (MsgDownloading i), Print MsgOsmPending, CallGetChangeset i]"
      by (simp_all add: download_changeset_def seq_simps)
    with i Inl show ?thesis by (rule no_changeset)
  next
    case (Inr c)
    obtain fl2 tr2 where rest: "seq (check_author cfg env ue um c)
        (\<lambda>_. fetch_diff env qf c diffs) = (fl2, tr2)"
      by (cases "seq (check_author cfg env ue um c) (\<lambda>_. fetch_diff env qf c diffs)")
    with assms i Inr have fl: "fl = fl2"
      and tr: "tr = [Print (MsgDownloading i), Print MsgOsmPending, CallGetChangeset i] @ tr2"
      by (simp_all add: download_changeset_def seq_simps)
    from rest show ?thesis
    proof (cases rule: seq_cases)
      case (stop fl')
      with i Inr fl tr show ?thesis by (auto intro: author)
    next
      case (go x tr' tr'')
      with i Inr fl tr show ?thesis by (auto intro: fetch)
    qed
  qed
qed

lemma download_changesets_event:
  assumes "download_changesets cfg env ue um qf ids diffs = (fl, tr)" and "ev \<in> set tr"
  shows "\<exists>cid ds fl' tr' before after.
    cid \<in> set ids \<and> download_changeset cfg env ue um qf cid ds = (fl', tr') \<and>
    ev \<in> set tr' \<and> tr = before @ tr' @ after \<and>
    (stopped fl' fl \<and> after = [] \<or> (\<exists>ds'. fl' = Next ds'))"
  using assms
proof (induction ids arbitrary: diffs tr)
  case Nil
  then show ?case by (simp add: proceed_def)
next
  case (Cons cid ids)
  from Cons.prems(1) [unfolded download_changesets.simps] show ?case
  proof (cases rule: seq_cases)
    case (stop fl')
    with Cons.prems(2) have "cid \<in> set (cid # ids) \<and>
        download_changeset cfg env ue um qf cid diffs = (fl', tr) \<and> ev \<in> set tr \<and>
        tr = [] @ tr @ [] \<and> (stopped fl' fl \<and> [] = [] \<or> (\<exists>ds'. fl' = Next ds'))"
      by simp
    then show ?thesis by blast
  next
    case (go ds1 tr1 tr2)
    show ?thesis
    proof (cases "ev \<in> set tr1")
      case True
      with go have "cid \<in> set (cid # ids) \<and>
          download_changeset cfg env ue um qf cid diffs = (Next ds1, tr1) \<and> ev \<in> set tr1 \<and>
          tr = [] @ tr1 @ tr2 \<and>
          (stopped (Next ds1) fl \<and> tr2 = [] \<or> (\<exists>ds'. Next ds1 = Next ds'))"
        by simp
      then show ?thesis by blast
    next
      case False
      with Cons.prems(2) go(3) have "ev \<in> set tr2" by simp
      from Cons.IH [OF go(2) this] obtain cid' ds fl' tr' before after where
        "cid' \<in> set ids" "download_changeset cfg env ue um qf cid' ds = (fl', tr')"
        "ev \<in> set tr'" "tr2 = before @ tr' @ after"
        "stopped fl' fl \<and> after = [] \<or> (\<exists>ds'. fl' = Next ds')"
        by blast
      with go(3) have "cid' \<in> set (cid # ids) \<and>
          download_changeset cfg env ue um qf cid' ds = (fl', tr') \<and> ev \<in> set tr' \<and>
          tr = (tr1 @ before) @ tr' @ after \<and>
          (stopped fl' fl \<and> after = [] \<or> (\<exists>ds'. fl' = Next ds'))"
        by simp
      then show ?thesis by blast
    qed
  qed
qed

lemma download_changeset_history:
  assumes "download_changeset cfg env ue um qf cid diffs = (fl, tr)"
    and "CallHistory c s q \<in> set tr"
  obtains i tr' tr'' where "py_int cid = Inr i" "get_changeset env i = Inr c"
    "check_author cfg env ue um c = (Next (), tr')" "fetch_diff env qf c diffs = (fl, tr'')"
    "tr = [Print (MsgDownloading i), Print MsgOsmPending, CallGetChangeset i] @ tr' @ tr''"
    "CallHistory c s q \<in> set tr''" "s = length (cs_partition c) + 1" "q = qf"
  using assms(1)
proof (cases rule: download_changeset_cases)
  case (bad_id e)
  with assms(2) show ?thesis by simp
next
  case (no_changeset i e)
  with assms(2) show ?thesis by simp
next
  case (author i c' fl' tr')
  with assms(2) check_author_events [of c' cfg env ue um] show ?thesis
    by (auto dest: events_inD)
next
  case (fetch i c' tr' tr'')
  from fetch(3) assms(2) check_author_events [of c' cfg env ue um]
  have "CallHistory c s q \<notin> set tr'" by (auto dest: events_inD)
  with assms(2) fetch(5) have ev: "CallHistory c s q \<in> set tr''" by simp
  with fetch(4) fetch_diff_events [of c' qf env diffs]
  have same: "c = c'" "s = length (cs_partition c') + 1" "q = qf"
    by (auto dest: events_inD)
  with fetch ev show ?thesis by (auto intro: that)
qed

lemma download_changeset_too_big:
  assumes "download_changeset cfg env ue um qf cid diffs = (fl, tr)"
    and "CallHistory c s q \<in> set tr"
    and "get_changeset_elements_history env c s q = Inr (Some d)"
    and "changeset_size c < diff_size d"
  shows "fl = Raise AssertionError \<and> last tr = CallHistory c s q"
  using assms(1,2)
proof (cases rule: download_changeset_history)
  case (1 i tr' tr'')
  have "changeset_size c \<noteq> 0"
  proof
    assume "changeset_size c = 0"
    from fetch_diff_empty [OF this, of env qf diffs] 1(4,6) show False by simp
  qed
  from fetch_diff_too_big [OF assms(3) [unfolded 1(7,8)] assms(4) this, of diffs] 1
  show ?thesis by simp
qed

lemma download_changesets_too_big:
  assumes "download_changesets cfg env ue um qf ids diffs = (fl, tr)"
    and "CallHistory c s q \<in> set tr"
    and "get_changeset_elements_history env c s q = Inr (Some d)"
    and "changeset_size c < diff_size d"
  shows "fl = Raise AssertionError \<and> last tr = CallHistory c s q"
proof -
  from download_changesets_event [OF assms(1,2)] obtain cid ds fl' tr' before after where
    body: "download_changeset cfg env ue um qf cid ds = (fl', tr')"
    and ev: "CallHistory c s q \<in> set tr'" and tr: "tr = before @ tr' @ after"
    and rest: "stopped fl' fl \<and> after = [] \<or> (\<exists>ds'. fl' = Next ds')"
    by blast
  from download_changeset_too_big [OF body ev assms(3,4)]
  have fl': "fl' = Raise AssertionError" and last: "last tr' = CallHistory c s q" by simp_all
  from ev have "tr' \<noteq> []" by auto
  with fl' rest tr last show ?thesis by auto
qed

lemma download_changesets_history:
  assumes "download_changesets cfg env ue um qf ids diffs = (fl, tr)"
    and "CallHistory c s q \<in> set tr"
  shows "q = qf \<and> (\<exists>i. CallGetChangeset i \<in> set tr)"
proof -
  from download_changesets_event [OF assms(1,2)] obtain cid ds fl' tr' before after where
    body: "download_changeset cfg env ue um qf cid ds = (fl', tr')"
    and ev: "CallHistory c s q \<in> set tr'" and tr: "tr = before @ tr' @ after"
    by blast
  from body ev show ?thesis
  proof (cases rule: download_changeset_history)
    case (1 i tr1 tr2)
    with tr show ?thesis by auto
  qed
qed

lemma download_changeset_Next:
  assumes "download_changeset cfg env ue um qf cid diffs = (Next ds, tr)"
  shows "\<exists>i c. get_changeset env i = Inr c \<and> CallGetChangeset i \<in> set tr \<and>
    (changeset_size c = 0 \<longrightarrow> ds = diffs)"
  using assms
proof (cases rule: download_changeset_cases)
  case (bad_id e)
  then show ?thesis by simp
next
  case (no_changeset i e)
  then show ?thesis by simp
next
  case (author i c fl' tr')
  then show ?thesis by (cases fl') simp_all
next
  case (fetch i c tr' tr'')
  with fetch_diff_empty [of c env qf diffs]
  have "get_changeset env i = Inr c \<and> CallGetChangeset i \<in> set tr \<and>
      (changeset_size c = 0 \<longrightarrow> ds = diffs)" by auto
  then show ?thesis by (intro exI)
qed

lemma download_changesets_nothing:
  assumes "download_changesets cfg env ue um qf ids diffs = (Next ds, tr)"
    and "\<And>i c. CallGetChangeset i \<in> set tr \<Longrightarrow> get_changeset env i = Inr c \<Longrightarrow>
      changeset_size c = 0"
  shows "ds = diffs"
  using assms
proof (induction ids arbitrary: diffs tr)
  case Nil
  then show ?case by (simp add: proceed_def)
next
  case (Cons cid ids)
  from Cons.prems(1) [unfolded download_changesets.simps] show ?case
  proof (cases rule: seq_cases)
    case (stop fl')
    then show ?thesis by (cases fl') simp_all
  next
    case (go ds1 tr1 tr2)
    from download_changeset_Next [OF go(1)] obtain i c where
      c: "get_changeset env i = Inr c"
      and ev: "CallGetChangeset i \<in> set tr1"
      and same: "changeset_size c = 0 \<longrightarrow> ds1 = diffs" by auto
    from ev go(3) have "CallGetChangeset i \<in> set tr" by simp
    from Cons.prems(2) [OF this c] same have "ds1 = diffs" by simp
    moreover have "ds = ds1"
    proof (rule Cons.IH [OF go(2)])
      fix i c' assume "CallGetChangeset i \<in> set tr2" "get_changeset env i = Inr c'"
      with go(3) Cons.prems(2) [of i c'] show "changeset_size c' = 0" by simp
    qed
    ultimately show ?thesis by simp
  qed
qed

lemma download_changeset_moderator:
  assumes "download_changeset cfg env ue um qf cid diffs = (fl, tr)"
    and "CallGetChangeset i \<in> set tr" and "get_changeset env i = Inr c"
    and "get_user env (cs_uid c) = Inr (Some cu)" and "is_osm_moderator cfg (roles cu)"
    and "ue < CHANGESETS_LIMIT_MODERATOR_REVERT cfg" and "\<not> um"
  shows "fl = Return (- 1) \<and> last tr = Print MsgModeratorsChangesets"
proof -
  note stop = check_author_moderator [OF assms(6,7,4,5)]
  from assms(1) show ?thesis
  proof (cases rule: download_changeset_cases)
    case (bad_id e)
    with assms(2) show ?thesis by simp
  next
    case (no_changeset j e)
    with assms(2) have "i = j" by simp
    with assms(3) no_changeset show ?thesis by simp
  next
    case (author j c' fl' tr')
    from author(5) assms(2) check_author_events [of c' cfg env ue um] author(3)
    have "i = j" by (auto dest: events_inD)
    with assms(3) author stop show ?thesis by auto
  next
    case (fetch j c' tr' tr'')
    from fetch(5) assms(2) check_author_events [of c' cfg env ue um] fetch(3)
      fetch_diff_events [of c' qf env diffs] fetch(4)
    have "i = j" by (auto dest: events_inD)
    with assms(3) fetch stop show ?thesis by auto
  qed
qed

lemma download_changesets_moderator:
  assumes "download_changesets cfg env ue um qf ids diffs = (fl, tr)"
    and "CallGetChangeset i \<in> set tr" and "get_changeset env i = Inr c"
    and "get_user env (cs_uid c) = Inr (Some cu)" and "is_osm_moderator cfg (roles cu)"
    and "ue < CHANGESETS_LIMIT_MODERATOR_REVERT cfg" and "\<not> um"
  shows "fl = Return (- 1) \<and> last tr = Print MsgModeratorsChangesets"
proof -
  from download_changesets_event [OF assms(1,2)] obtain cid ds fl' tr' before after where
    body: "download_changeset cfg env ue um qf cid ds = (fl', tr')"
    and ev: "CallGetChangeset i \<in> set tr'" and tr: "tr = before @ tr' @ after"
    and rest: "stopped fl' fl \<and> after = [] \<or> (\<exists>ds'. fl' = Next ds')"
    by blast
  from download_changeset_moderator [OF body ev assms(3-7)]
  have fl': "fl' = Return (- 1)" and last: "last tr' = Print MsgModeratorsChangesets"
    by simp_all
  from ev have "tr' \<noteq> []" by auto
  with fl' rest tr last show ?thesis by auto
qed

lemma download_changesets_author_lookup:
  assumes "download_changesets cfg env ue um qf ids diffs = (fl, tr)"
    and "CallGetUser u \<in> set tr"
  shows "ue < CHANGESETS_LIMIT_MODERATOR_REVERT cfg \<and> \<not> um"
proof -
  from download_changesets_event [OF assms(1,2)] obtain cid ds fl' tr' where
    body: "download_changeset cfg env ue um qf cid ds = (fl', tr')"
    and ev: "CallGetUser u \<in> set tr'"
    by blast
  from body show ?thesis
  proof (cases rule: download_changeset_cases)
    case (bad_id e)
    with ev show ?thesis by simp
  next
    case (no_changeset j e)
    with ev show ?thesis by simp
  next
    case (author j c' fl'' tr'')
    with ev check_author_guard [of cfg env ue um c' fl'' tr'' u] show ?thesis by auto
  next
    case (fetch j c' tr'' tr''')
    from fetch(4) ev fetch_diff_events [of c' qf env ds]
    have "CallGetUser u \<notin> set tr'''" by (auto dest: events_inD)
    with fetch ev check_author_guard [of cfg env ue um c' "Next ()" tr'' u]
    show ?thesis by auto
  qed
qed


section \<open>The generation of the revert and its output\<close>

lemma generate_revert_empty:
  "generate_revert env t [] = (Raise IndexError, [Print MsgGenerating])"
  by (simp add: generate_revert_def merge_and_sort_diffs_def seq_simps)

lemma generate_revert_parents:
  assumes "generate_revert env t diffs = (fl, tr)" and "CallUpdateParents i0 \<in> set tr"
    and "update_parents env i0 = Inr (p, i)"
  shows "\<exists>ivn. fl = Next ivn \<and> inverted ivn = i"
  using assms
  by (auto simp: generate_revert_def seq_def emit_def call_def lift_def proceed_def
      split: sum.splits prod.splits if_splits)

lemma finish_nothing:
  "diff_size (inverted ivn) = 0 \<Longrightarrow>
   finish cfg env a ids ue ivn = (Return 0, [Print MsgNothingToRevert])"
  by (simp add: finish_def seq_simps ret_def)

lemma print_warn_elements_prints: "events_in (\<lambda>ev. \<exists>m. ev = Print m) (print_warn_elements w)"
  unfolding print_warn_elements_def
  by (rule events_in_emit_all) auto

lemma post_comments_events:
  "events_in (\<lambda>ev. (\<exists>m. ev = Print m) \<or> (\<exists>i x. ev = CallPostDiscussionComment i x))
     (post_comments env t n i ids)"
proof (induction ids arbitrary: i)
  case Nil
  show ?case unfolding post_comments.simps by (rule events_in_silent)
next
  case (Cons cid ids)
  show ?case unfolding post_comments.simps
    by (intro events_in_seq events_in_call events_in_emit events_in_silent Cons.IH) simp_all
qed

lemma after_upload_events:
  "events_in (\<lambda>ev. (\<exists>m. ev = Print m) \<or> (\<exists>i x. ev = CallPostDiscussionComment i x))
     (after_upload env a ids ivn n)"
proof -
  have prints: "events_in (\<lambda>ev. (\<exists>m. ev = Print m) \<or> (\<exists>i x. ev = CallPostDiscussionComment i x))
      (print_warn_elements w)" for w
    using print_warn_elements_prints [of w] by (simp add: events_in_def list_all_iff)
  show ?thesis
    unfolding after_upload_def Let_def filter_discussion_changesets_def
    by (intro events_in_intros prints post_comments_events) simp_all
qed

lemma after_upload_None:
  "discussion a = None \<Longrightarrow> after_upload env a ids ivn n = (Raise AttributeError, [])"
  by (simp add: after_upload_def raise_def)


lemma save_osc_events:
  "events_in (\<lambda>ev. (\<exists>m. ev = Print m) \<or> (\<exists>x. ev = CallBuildOsmChange x) \<or>
      (\<exists>f x. ev = WriteFile f x)) (save_osc env a ivn)"
proof -
  have prints: "events_in (\<lambda>ev. (\<exists>m. ev = Print m) \<or> (\<exists>x. ev = CallBuildOsmChange x) \<or>
      (\<exists>f x. ev = WriteFile f x)) (print_warn_elements w)" for w
    using print_warn_elements_prints [of w] by (simp add: events_in_def list_all_iff)
  show ?thesis
    unfolding save_osc_def
    by (intro events_in_intros prints) simp_all
qed

lemma upload_cases [consumes 1, case_names no_cap too_big failed rejected uploaded]:
  assumes "upload cfg env a ids ue ivn = (fl, tr)"
  obtains
    (no_cap) e where "get_changeset_max_size env = Inl e" "fl = Raise e"
      "tr = [CallGetChangesetMaxSize]"
  | (too_big) cap more where "get_changeset_max_size env = Inr cap"
      "cap < int (diff_size (inverted ivn))" "fl = Return (- 1)"
      "tr = CallGetChangesetMaxSize # Print (MsgTooBig (diff_size (inverted ivn)) cap) # more"
      "more = [] \<or> more = [Print MsgHintReduce]"
  | (failed) cap e where "get_changeset_max_size env = Inr cap"
      "int (diff_size (inverted ivn)) \<le> cap"
      "upload_diff env (inverted ivn) (comment a)
         (dict_union (extra_args cfg a ids ue) (statistics ivn)) = Inl e"
      "fl = Raise e"
      "tr = [CallGetChangesetMaxSize, Print (MsgUploading (diff_size (inverted ivn))),
             CallUploadDiff (inverted ivn) (comment a)
               (dict_union (extra_args cfg a ids ue) (statistics ivn))]"
  | (rejected) cap r where "get_changeset_max_size env = Inr cap"
      "int (diff_size (inverted ivn)) \<le> cap"
      "upload_diff env (inverted ivn) (comment a)
         (dict_union (extra_args cfg a ids ue) (statistics ivn)) = Inr r"
      "r = None \<or> r = Some 0" "fl = Return (- 1)"
      "tr = [CallGetChangesetMaxSize, Print (MsgUploading (diff_size (inverted ivn))),
             CallUploadDiff (inverted ivn) (comment a)
               (dict_union (extra_args cfg a ids ue) (statistics ivn))]"
  | (uploaded) cap n tr' where "get_changeset_max_size env = Inr cap"
      "int (diff_size (inverted ivn)) \<le> cap"
      "upload_diff env (inverted ivn) (comment a)
         (dict_union (extra_args cfg a ids ue) (statistics ivn)) = Inr (Some n)"
      "n \<noteq> 0" "after_upload env a ids ivn n = (fl, tr')"
      "tr = [CallGetChangesetMaxSize, Print (MsgUploading (diff_size (inverted ivn))),
             CallUploadDiff (inverted ivn) (comment a)
               (dict_union (extra_args cfg a ids ue) (statistics ivn))] @ tr'"
proof (cases "get_changeset_max_size env")
  case (Inl e)
  with assms have "fl = Raise e" "tr = [CallGetChangesetMaxSize]"
    by (simp_all add: upload_def seq_simps)
  with Inl show ?thesis by (rule no_cap)
next
  case cap: (Inr cap)
  show ?thesis
  proof (cases "cap < int (diff_size (inverted ivn))")
    case True
    let ?hint = "if length ids > 1 then emit MsgHintReduce else proceed ()"
    obtain more where hint: "?hint = (Next (), more)" and more: "more = [] \<or> more = [Print MsgHintReduce]"
      by (cases "length ids > 1") (simp_all add: emit_def proceed_def)
    have rest: "seq ?hint (\<lambda>_. ret (- 1) :: int run) = (Return (- 1), more)"
      unfolding hint by (simp add: seq_def ret_def)
    have "upload cfg env a ids ue ivn =
        (fst (seq ?hint (\<lambda>_. ret (- 1) :: int run)),
         CallGetChangesetMaxSize # Print (MsgTooBig (diff_size (inverted ivn)) cap) #
         snd (seq ?hint (\<lambda>_. ret (- 1) :: int run)))"
      using cap True by (simp add: upload_def seq_simps)
    with assms have "fl = Return (- 1)"
      "tr = CallGetChangesetMaxSize # Print (MsgTooBig (diff_size (inverted ivn)) cap) # more"
      unfolding rest by simp_all
    with cap True more show ?thesis by (auto intro: too_big)
  next
    case False
    let ?tags = "dict_union (extra_args cfg a ids ue) (statistics ivn)"
    show ?thesis
    proof (cases "upload_diff env (inverted ivn) (comment a) ?tags")
      case (Inl e)
      with assms cap False have "fl = Raise e"
        "tr = [CallGetChangesetMaxSize, Print (MsgUploading (diff_size (inverted ivn))),
               CallUploadDiff (inverted ivn) (comment a) ?tags]"
        by (simp_all add: upload_def Let_def seq_simps)
      with cap False Inl show ?thesis by (auto intro: failed)
    next
      case r: (Inr r)
      show ?thesis
      proof (cases "r = None \<or> r = Some 0")
        case True
        with assms cap False r have "fl = Return (- 1)"
          "tr = [CallGetChangesetMaxSize, Print (MsgUploading (diff_size (inverted ivn))),
                 CallUploadDiff (inverted ivn) (comment a) ?tags]"
          by (auto simp: upload_def Let_def seq_simps ret_def)
        with cap False r True show ?thesis by (auto intro: rejected)
      next
        case ok: False
        then obtain n where n: "r = Some n" "n \<noteq> 0" by (cases r) auto
        obtain fl' tr' where after: "after_upload env a ids ivn n = (fl', tr')"
          by (cases "after_upload env a ids ivn n")
        with assms cap False r n have "fl = fl'"
          "tr = [CallGetChangesetMaxSize, Print (MsgUploading (diff_size (inverted ivn))),
                 CallUploadDiff (inverted ivn) (comment a) ?tags] @ tr'"
          by (simp_all add: upload_def Let_def seq_simps)
        with cap False r n after show ?thesis by (auto intro: uploaded)
      qed
    qed
  qed
qed

lemma finish_cases [consumes 1, case_names nothing osc upload]:
  assumes "finish cfg env a ids ue ivn = (fl, tr)"
  obtains
    (nothing) "diff_size (inverted ivn) = 0" "fl = Return 0" "tr = [Print MsgNothingToRevert]"
  | (osc) "diff_size (inverted ivn) \<noteq> 0" "truthy_str (osc_file a) \<or> print_osc a = Some True"
      "save_osc env a ivn = (fl, tr)"
  | (upload) "diff_size (inverted ivn) \<noteq> 0" "\<not> truthy_str (osc_file a)"
      "print_osc a \<noteq> Some True" "upload cfg env a ids ue ivn = (fl, tr)"
  using assms by (auto simp: finish_def seq_simps ret_def split: if_splits)

lemma finish_upload_event:
  assumes "finish cfg env a ids ue ivn = (fl, tr)" and "CallUploadDiff i c t \<in> set tr"
  shows "i = inverted ivn \<and> (\<exists>cap. get_changeset_max_size env = Inr cap \<and>
    int (diff_size i) \<le> cap)"
  using assms(1)
proof (cases rule: finish_cases)
  case nothing
  with assms(2) show ?thesis by simp
next
  case osc
  with assms(2) save_osc_events [of env a ivn] show ?thesis by (auto dest: events_inD)
next
  case upload
  from upload(4) show ?thesis
  proof (cases rule: upload_cases)
    case (no_cap e)
    with assms(2) show ?thesis by simp
  next
    case (too_big cap more)
    with assms(2) show ?thesis by auto
  next
    case (failed cap e)
    with assms(2) show ?thesis by simp
  next
    case (rejected cap r)
    with assms(2) show ?thesis by simp
  next
    case (uploaded cap n tr')
    with assms(2) after_upload_events [of env a ids ivn n] show ?thesis
      by (auto dest: events_inD)
  qed
qed

lemma finish_too_big:
  assumes "finish cfg env a ids ue ivn = (fl, tr)"
    and "\<not> truthy_str (osc_file a)" and "print_osc a \<noteq> Some True"
    and "get_changeset_max_size env = Inr cap" and "0 \<le> cap"
    and "cap < int (diff_size (inverted ivn))"
  shows "fl = Return (- 1) \<and> Print (MsgTooBig (diff_size (inverted ivn)) cap) \<in> set tr \<and>
    (\<forall>i c t. CallUploadDiff i c t \<notin> set tr)"
  using assms(1)
proof (cases rule: finish_cases)
  case nothing
  with assms(5,6) show ?thesis by simp
next
  case osc
  with assms(2,3) show ?thesis by simp
next
  case upload
  from upload(4) show ?thesis
  proof (cases rule: upload_cases)
    case (too_big cap' more)
    with assms(4) show ?thesis by auto
  qed (use assms(4,6) in auto)
qed

lemma finish_upload_without_discussion:
  assumes "finish cfg env a ids ue ivn = (fl, tr)" and "CallUploadDiff i c t \<in> set tr"
    and "upload_diff env i c t = Inr (Some n)" and "n \<noteq> 0" and "discussion a = None"
  shows "fl = Raise AttributeError \<and> last tr = CallUploadDiff i c t"
  using assms(1)
proof (cases rule: finish_cases)
  case nothing
  with assms(2) show ?thesis by simp
next
  case osc
  with assms(2) save_osc_events [of env a ivn] show ?thesis by (auto dest: events_inD)
next
  case upload
  from upload(4) show ?thesis
  proof (cases rule: upload_cases)
    case (no_cap e)
    with assms(2) show ?thesis by simp
  next
    case (too_big cap more)
    with assms(2) show ?thesis by auto
  next
    case (failed cap e)
    with assms(2,3) show ?thesis by simp
  next
    case (rejected cap r)
    with assms(2,3,4) show ?thesis by auto
  next
    case (uploaded cap n' tr')
    from uploaded(5) after_upload_None [OF assms(5), of env ids ivn n']
    have "fl = Raise AttributeError" "tr' = []" by simp_all
    with uploaded(6) assms(2) show ?thesis by simp
  qed
qed


lemma main_stages [consumes 1, case_names startup download generate finish]:
  assumes "main cfg env a = (fl, tr)"
  obtains
    (startup) fl0 where "startup cfg env a = (fl0, tr)" "stopped fl0 fl"
      "\<forall>ev\<in>set tr. stage ev = 0"
  | (download) ids user tr0 fl1 tr1 where
      "startup cfg env a = (Next (ids, user), tr0)"
      "download_changesets cfg env (changesets_count user) (is_osm_moderator cfg (roles user))
         (query_filter a) ids [] = (fl1, tr1)"
      "stopped fl1 fl" "tr = tr0 @ tr1"
      "\<forall>ev\<in>set tr0. stage ev = 0" "\<forall>ev\<in>set tr1. stage ev = 1"
  | (generate) ids user tr0 diffs tr1 fl2 tr2 where
      "startup cfg env a = (Next (ids, user), tr0)"
      "download_changesets cfg env (changesets_count user) (is_osm_moderator cfg (roles user))
         (query_filter a) ids [] = (Next diffs, tr1)"
      "generate_revert env (set (normalise (only_tags a))) diffs = (fl2, tr2)"
      "stopped fl2 fl" "tr = tr0 @ tr1 @ tr2"
      "\<forall>ev\<in>set tr0. stage ev = 0" "\<forall>ev\<in>set tr1. stage ev = 1" "\<forall>ev\<in>set tr2. stage ev = 2"
  | (finish) ids user tr0 diffs tr1 ivn tr2 tr3 where
      "startup cfg env a = (Next (ids, user), tr0)"
      "download_changesets cfg env (changesets_count user) (is_osm_moderator cfg (roles user))
         (query_filter a) ids [] = (Next diffs, tr1)"
      "generate_revert env (set (normalise (only_tags a))) diffs = (Next ivn, tr2)"
      "finish cfg env a ids (changesets_count user) ivn = (fl, tr3)"
      "tr = tr0 @ tr1 @ tr2 @ tr3"
      "\<forall>ev\<in>set tr0. stage ev = 0" "\<forall>ev\<in>set tr1. stage ev = 1" "\<forall>ev\<in>set tr2. stage ev = 2"
      "\<forall>ev\<in>set tr3. stage ev = 3"
proof -
  have s0: "\<forall>ev\<in>set t. stage ev = 0" if "startup cfg env a = (f, t)" for f t
    using startup_stage [of cfg env a] that by (simp add: events_in_def list_all_iff)
  have s1: "\<forall>ev\<in>set t. stage ev = 1"
    if "download_changesets cfg env ue um qf ids [] = (f, t)" for ue um qf ids f t
    using download_changesets_stage [of cfg env ue um qf ids "[]"] that
    by (simp add: events_in_def list_all_iff)
  have s2: "\<forall>ev\<in>set t. stage ev = 2" if "generate_revert env x ds = (f, t)" for x ds f t
    using generate_revert_stage [of env x ds] that by (simp add: events_in_def list_all_iff)
  have s3: "\<forall>ev\<in>set t. stage ev = 3" if "finish cfg env a ids ue ivn = (f, t)"
    for ids ue ivn f t
    using finish_stage [of cfg env a ids ue ivn] that by (simp add: events_in_def list_all_iff)
  from assms show ?thesis
  proof (cases rule: main_cases)
    case (startup fl0)
    from startup s0 [OF startup(1)] show ?thesis by (rule that(1))
  next
    case (download ids user tr0 fl1 tr1)
    from download s0 [OF download(1)] s1 [OF download(2)] show ?thesis by (rule that(2))
  next
    case (generate ids user tr0 diffs tr1 fl2 tr2)
    from generate s0 [OF generate(1)] s1 [OF generate(2)] s2 [OF generate(3)]
    show ?thesis by (rule that(3))
  next
    case (finish ids user tr0 diffs tr1 ivn tr2 tr3)
    from finish s0 [OF finish(1)] s1 [OF finish(2)] s2 [OF finish(3)] s3 [OF finish(4)]
    show ?thesis by (rule that(4))
  qed
qed


section \<open>Properties of \<^verbatim>\<open>main\<close>\<close>

lemma last_append_mem: "ev \<in> set ys \<Longrightarrow> last (xs @ ys) = last ys"
  by (cases ys) auto

text \<open>
  C1. Take any run of \<^verbatim>\<open>main\<close> in which the history of a changeset \<open>c\<close> was retrieved and
  the service gave the diff \<open>d\<close>. If \<open>d\<close> has more elements than \<open>c\<close> declares, the run
  ends with \<^verbatim>\<open>AssertionError\<close> right after that retrieval, and nothing of the later stages
  (inversion, output, upload) has happened. Hence whenever the run goes on after the
  retrieval, or ends in any other way, the diff is no larger than the changeset.
\<close>

theorem main_diff_size_invariant:
  assumes "main cfg env a = (fl, tr)" and "CallHistory c s q \<in> set tr"
    and "get_changeset_elements_history env c s q = Inr (Some d)"
  shows "(changeset_size c < diff_size d \<longrightarrow>
      fl = Raise AssertionError \<and> last tr = CallHistory c s q \<and> (\<forall>ev\<in>set tr. stage ev \<le> 1)) \<and>
    (fl \<noteq> Raise AssertionError \<or> last tr \<noteq> CallHistory c s q \<longrightarrow>
      diff_size d \<le> changeset_size c)"
proof -
  have "fl = Raise AssertionError \<and> last tr = CallHistory c s q \<and> (\<forall>ev\<in>set tr. stage ev \<le> 1)"
    if big: "changeset_size c < diff_size d"
    using assms(1)
  proof (cases rule: main_stages)
    case (startup fl0)
    with assms(2) show ?thesis by force
  next
    case (download ids user tr0 fl1 tr1)
    from download(4,5) assms(2) have ev: "CallHistory c s q \<in> set tr1" by force
    from download_changesets_too_big [OF download(2) ev assms(3) big]
    have "fl1 = Raise AssertionError" "last tr1 = CallHistory c s q" by simp_all
    with download ev show ?thesis by (auto simp: last_append_mem)
  next
    case (generate ids user tr0 diffs tr1 fl2 tr2)
    from generate(5,6,8) assms(2) have ev: "CallHistory c s q \<in> set tr1" by force
    from download_changesets_too_big [OF generate(2) ev assms(3) big]
    show ?thesis by simp
  next
    case (finish ids user tr0 diffs tr1 ivn tr2 tr3)
    from finish(5,6,8,9) assms(2) have ev: "CallHistory c s q \<in> set tr1" by force
    from download_changesets_too_big [OF finish(2) ev assms(3) big]
    show ?thesis by simp
  qed
  then show ?thesis by (cases "changeset_size c < diff_size d") auto
qed

theorem main_diff_size_invariant_witness:
  "fst (main sample_config
          (sample_env\<lparr>get_changeset_elements_history := (\<lambda>_ _ _. Inr (Some oversized_diff))\<rparr>)
          sample_args) = Raise AssertionError \<and>
   last (snd (main sample_config
          (sample_env\<lparr>get_changeset_elements_history := (\<lambda>_ _ _. Inr (Some oversized_diff))\<rparr>)
          sample_args)) = CallHistory sample_changeset 2 [] \<and>
   changeset_size sample_changeset < diff_size oversized_diff \<and>
   fst (main sample_config sample_env sample_args) = Return 0 \<and>
   diff_size sample_diff \<le> changeset_size sample_changeset"
proof -
  let ?env = "sample_env\<lparr>get_changeset_elements_history := (\<lambda>_ _ _. Inr (Some oversized_diff))\<rparr>"
  let ?bad = "main sample_config ?env sample_args"
  let ?good = "main sample_config sample_env sample_args"
  have bad: "?bad = (fst ?bad, snd ?bad)" and good: "?good = (fst ?good, snd ?good)"
    by simp_all
  have ev_bad: "CallHistory sample_changeset 2 [] \<in> set (snd ?bad)" by code_simp
  have ev_good: "CallHistory sample_changeset 2 [] \<in> set (snd ?good)" by code_simp
  have resp_bad: "get_changeset_elements_history ?env sample_changeset 2 [] =
      Inr (Some oversized_diff)" by (simp add: sample_env_def)
  have resp_good: "get_changeset_elements_history sample_env sample_changeset 2 [] =
      Inr (Some sample_diff)" by (simp add: sample_env_def)
  have big: "changeset_size sample_changeset < diff_size oversized_diff" by code_simp
  have ok: "fst ?good = Return 0" by code_simp
  from main_diff_size_invariant [OF bad ev_bad resp_bad] big
  have "fst ?bad = Raise AssertionError" "last (snd ?bad) = CallHistory sample_changeset 2 []"
    by simp_all
  moreover from main_diff_size_invariant [OF good ev_good resp_good] ok
  have "diff_size sample_diff \<le> changeset_size sample_changeset" by simp
  ultimately show ?thesis using big ok by simp
qed

text \<open>
  C9. \<^verbatim>\<open>merge_and_sort_diffs\<close> fails on the empty list with \<^verbatim>\<open>IndexError\<close>. So a run of
  \<^verbatim>\<open>main\<close> that reaches the generation of the revert while every changeset it fetched
  declares no element raises \<^verbatim>\<open>IndexError\<close> there; it does not report that there is
  nothing to revert, and the wrapper turns the exception into the exit code -2.
\<close>

theorem main_all_changesets_empty:
  assumes "main cfg env a = (fl, tr)" and "Print MsgGenerating \<in> set tr"
    and "\<forall>i c. CallGetChangeset i \<in> set tr \<longrightarrow> get_changeset env i = Inr c \<longrightarrow>
      changeset_size c = 0"
  shows "merge_and_sort_diffs [] = Inl IndexError \<and> fl = Raise IndexError \<and>
    last tr = Print MsgGenerating \<and> Print MsgNothingToRevert \<notin> set tr \<and>
    main_timer (fl, tr) = (- 2, tr @ [Print (MsgTraceback IndexError), Print MsgTotalTime])"
proof -
  have "fl = Raise IndexError \<and> last tr = Print MsgGenerating \<and>
      Print MsgNothingToRevert \<notin> set tr"
    using assms(1)
  proof (cases rule: main_stages)
    case (startup fl0)
    with assms(2) show ?thesis by force
  next
    case (download ids user tr0 fl1 tr1)
    with assms(2) show ?thesis by force
  next
    case (generate ids user tr0 diffs tr1 fl2 tr2)
    have "diffs = []"
    proof (rule download_changesets_nothing [OF generate(2)])
      fix i c assume "CallGetChangeset i \<in> set tr1" "get_changeset env i = Inr c"
      with assms(3) generate(5) show "changeset_size c = 0" by simp
    qed
    with generate(3) generate_revert_empty [of env "set (normalise (only_tags a))"]
    have "fl2 = Raise IndexError" "tr2 = [Print MsgGenerating]" by simp_all
    with generate show ?thesis by force
  next
    case (finish ids user tr0 diffs tr1 ivn tr2 tr3)
    have "diffs = []"
    proof (rule download_changesets_nothing [OF finish(2)])
      fix i c assume "CallGetChangeset i \<in> set tr1" "get_changeset env i = Inr c"
      with assms(3) finish(5) show "changeset_size c = 0" by simp
    qed
    with finish(3) generate_revert_empty [of env "set (normalise (only_tags a))"]
    show ?thesis by simp
  qed
  then show ?thesis by (simp add: merge_and_sort_diffs_def)
qed

theorem main_all_changesets_empty_witness:
  "changeset_size empty_changeset = 0 \<and>
   fst (main sample_config (sample_env\<lparr>get_changeset := (\<lambda>_. Inr empty_changeset)\<rparr>)
          sample_args) = Raise IndexError \<and>
   fst (main_timer (main sample_config
          (sample_env\<lparr>get_changeset := (\<lambda>_. Inr empty_changeset)\<rparr>) sample_args)) = - 2 \<and>
   Print MsgNothingToRevert \<notin> set (snd (main sample_config
          (sample_env\<lparr>get_changeset := (\<lambda>_. Inr empty_changeset)\<rparr>) sample_args))"
proof -
  let ?env = "sample_env\<lparr>get_changeset := (\<lambda>_. Inr empty_changeset)\<rparr>"
  let ?run = "main sample_config ?env sample_args"
  have run: "?run = (fst ?run, snd ?run)" by simp
  have ev: "Print MsgGenerating \<in> set (snd ?run)" by code_simp
  have size: "changeset_size empty_changeset = 0" by code_simp
  have empty: "\<forall>i c. CallGetChangeset i \<in> set (snd ?run) \<longrightarrow> get_changeset ?env i = Inr c \<longrightarrow>
      changeset_size c = 0"
    using size by (simp add: sample_env_def)
  from main_all_changesets_empty [OF run ev empty] size show ?thesis by simp
qed

text \<open>
  C7. Take any run of \<^verbatim>\<open>main\<close> in which \<^verbatim>\<open>update_parents\<close> was called and left an
  inversion without elements (this is the \<^verbatim>\<open>invert\<close> whose size \<^verbatim>\<open>main\<close> computes). The
  run reports that there is nothing to revert as its last event and returns 0; no change
  document is built, no file is written and nothing is uploaded.
\<close>

theorem main_nothing_to_revert:
  assumes "main cfg env a = (fl, tr)" and "CallUpdateParents i0 \<in> set tr"
    and "update_parents env i0 = Inr (p, i)" and "diff_size i = 0"
  shows "fl = Return 0 \<and> last tr = Print MsgNothingToRevert \<and>
    (\<forall>ev\<in>set tr. stage ev = 3 \<longrightarrow> ev = Print MsgNothingToRevert) \<and>
    (\<forall>x. CallBuildOsmChange x \<notin> set tr) \<and> (\<forall>f x. WriteFile f x \<notin> set tr) \<and>
    (\<forall>x c t. CallUploadDiff x c t \<notin> set tr)"
proof -
  have main: "fl = Return 0 \<and> last tr = Print MsgNothingToRevert \<and>
      (\<forall>ev\<in>set tr. stage ev = 3 \<longrightarrow> ev = Print MsgNothingToRevert)"
    using assms(1)
  proof (cases rule: main_stages)
    case (startup fl0)
    with assms(2) show ?thesis by force
  next
    case (download ids user tr0 fl1 tr1)
    with assms(2) show ?thesis by force
  next
    case (generate ids user tr0 diffs tr1 fl2 tr2)
    from generate(5,6,7) assms(2) have "CallUpdateParents i0 \<in> set tr2" by force
    from generate_revert_parents [OF generate(3) this assms(3)] generate(4)
    show ?thesis by auto
  next
    case (finish ids user tr0 diffs tr1 ivn tr2 tr3)
    from finish(5,6,7,9) assms(2) have "CallUpdateParents i0 \<in> set tr2" by force
    from generate_revert_parents [OF finish(3) this assms(3)]
    have "inverted ivn = i" by simp
    with assms(4) finish(4) finish_nothing [of ivn cfg env a ids "changesets_count user"]
    have "fl = Return 0" "tr3 = [Print MsgNothingToRevert]" by simp_all
    with finish show ?thesis by force
  qed
  then have "\<forall>ev\<in>set tr. stage ev = 3 \<longrightarrow> ev = Print MsgNothingToRevert" by simp
  then have "(\<forall>x. CallBuildOsmChange x \<notin> set tr) \<and> (\<forall>f x. WriteFile f x \<notin> set tr) \<and>
      (\<forall>x c t. CallUploadDiff x c t \<notin> set tr)"
    by force
  with main show ?thesis by simp
qed

theorem main_nothing_to_revert_witness:
  "diff_size [(''node'', [] :: InvertedElement list)] = 0 \<and>
   fst (main sample_config
     (sample_env\<lparr>invert_diff := (\<lambda>_ _. Inr (sample_inversion\<lparr>inverted := [(''node'', [])]\<rparr>))\<rparr>)
     sample_args) = Return 0 \<and>
   last (snd (main sample_config
     (sample_env\<lparr>invert_diff := (\<lambda>_ _. Inr (sample_inversion\<lparr>inverted := [(''node'', [])]\<rparr>))\<rparr>)
     sample_args)) = Print MsgNothingToRevert"
proof -
  let ?env = "sample_env\<lparr>invert_diff :=
      (\<lambda>_ _. Inr (sample_inversion\<lparr>inverted := [(''node'', [])]\<rparr>))\<rparr>"
  let ?run = "main sample_config ?env sample_args"
  have run: "?run = (fst ?run, snd ?run)" by simp
  have ev: "CallUpdateParents [(''node'', [])] \<in> set (snd ?run)" by code_simp
  have resp: "update_parents ?env [(''node'', [])] = Inr (0, [(''node'', [])])"
    by (simp add: sample_env_def)
  have size: "diff_size [(''node'', [] :: InvertedElement list)] = 0" by code_simp
  from main_nothing_to_revert [OF run ev resp size] size show ?thesis by simp
qed

text \<open>
  C4. In every run of \<^verbatim>\<open>main\<close>, an upload is attempted only with an inversion whose size
  is within the cap that \<^verbatim>\<open>get_changeset_max_size\<close> gave. In upload mode (neither
  \<^verbatim>\<open>osc_file\<close> nor \<^verbatim>\<open>print_osc\<close> set), when the inversion left by \<^verbatim>\<open>update_parents\<close> is
  larger than the cap (a cap is not negative), the run reports that the revert is too big,
  returns -1 and contains no upload.
\<close>

theorem main_upload_within_cap:
  assumes "main cfg env a = (fl, tr)"
  shows "(\<forall>x c t. CallUploadDiff x c t \<in> set tr \<longrightarrow>
       (\<exists>cap. get_changeset_max_size env = Inr cap \<and> int (diff_size x) \<le> cap)) \<and>
    (\<forall>i0 p i cap. CallUpdateParents i0 \<in> set tr \<and> update_parents env i0 = Inr (p, i) \<and>
       \<not> truthy_str (osc_file a) \<and> print_osc a \<noteq> Some True \<and>
       get_changeset_max_size env = Inr cap \<and> 0 \<le> cap \<and> cap < int (diff_size i) \<longrightarrow>
       fl = Return (- 1) \<and> Print (MsgTooBig (diff_size i) cap) \<in> set tr \<and>
       (\<forall>x c t. CallUploadDiff x c t \<notin> set tr))"
proof (intro conjI allI impI)
  fix x c t assume ev: "CallUploadDiff x c t \<in> set tr"
  from assms show "\<exists>cap. get_changeset_max_size env = Inr cap \<and> int (diff_size x) \<le> cap"
  proof (cases rule: main_stages)
    case (startup fl0)
    with ev show ?thesis by force
  next
    case (download ids user tr0 fl1 tr1)
    with ev show ?thesis by force
  next
    case (generate ids user tr0 diffs tr1 fl2 tr2)
    with ev show ?thesis by force
  next
    case (finish ids user tr0 diffs tr1 ivn tr2 tr3)
    from finish(5-8) ev have "CallUploadDiff x c t \<in> set tr3" by force
    from finish_upload_event [OF finish(4) this] show ?thesis by blast
  qed
next
  fix i0 p i cap
  assume hyp: "CallUpdateParents i0 \<in> set tr \<and> update_parents env i0 = Inr (p, i) \<and>
       \<not> truthy_str (osc_file a) \<and> print_osc a \<noteq> Some True \<and>
       get_changeset_max_size env = Inr cap \<and> 0 \<le> cap \<and> cap < int (diff_size i)"
  then have ev: "CallUpdateParents i0 \<in> set tr" and resp: "update_parents env i0 = Inr (p, i)"
    and mode: "\<not> truthy_str (osc_file a)" "print_osc a \<noteq> Some True"
    and cap: "get_changeset_max_size env = Inr cap" "0 \<le> cap" "cap < int (diff_size i)"
    by simp_all
  from assms have "fl = Return (- 1) \<and> Print (MsgTooBig (diff_size i) cap) \<in> set tr \<and>
       (\<forall>x c t. CallUploadDiff x c t \<notin> set tr)"
  proof (cases rule: main_stages)
    case (startup fl0)
    with ev show ?thesis by force
  next
    case (download ids user tr0 fl1 tr1)
    with ev show ?thesis by force
  next
    case (generate ids user tr0 diffs tr1 fl2 tr2)
    from generate(5,6,7) ev have "CallUpdateParents i0 \<in> set tr2" by force
    from generate_revert_parents [OF generate(3) this resp] generate(4)
    show ?thesis by auto
  next
    case (finish ids user tr0 diffs tr1 ivn tr2 tr3)
    from finish(5,6,7,9) ev have "CallUpdateParents i0 \<in> set tr2" by force
    from generate_revert_parents [OF finish(3) this resp]
    have i: "inverted ivn = i" by simp
    from finish_too_big [OF finish(4) mode cap(1,2) cap(3) [folded i]] i
    have "fl = Return (- 1)" "Print (MsgTooBig (diff_size i) cap) \<in> set tr3"
      "\<forall>x c t. CallUploadDiff x c t \<notin> set tr3" by simp_all
    with finish show ?thesis by force
  qed
  then show "fl = Return (- 1)" "Print (MsgTooBig (diff_size i) cap) \<in> set tr"
    "\<And>x c t. CallUploadDiff x c t \<notin> set tr" by simp_all
qed

theorem main_upload_within_cap_witness:
  "fst (main sample_config (sample_env\<lparr>get_changeset_max_size := Inr 0\<rparr>) sample_args)
     = Return (- 1) \<and>
   Print (MsgTooBig 1 0) \<in> set (snd (main sample_config
     (sample_env\<lparr>get_changeset_max_size := Inr 0\<rparr>) sample_args)) \<and>
   CallUploadDiff (inverted sample_inversion) ''undo'' [] \<notin> set (snd (main sample_config
     (sample_env\<lparr>get_changeset_max_size := Inr 0\<rparr>) sample_args)) \<and>
   int (diff_size (inverted sample_inversion)) \<le> 10"
proof -
  let ?env = "sample_env\<lparr>get_changeset_max_size := Inr 0\<rparr>"
  let ?run = "main sample_config ?env sample_args"
  let ?good = "main sample_config sample_env sample_args"
  let ?tags = "[(''changesets_count'', IntTag 151), (''created_by'', StrTag ''revert''),
     (''website'', StrTag ''example.org''),
     (''id'', StrTag ''https://www.openstreetmap.org/changeset/123'')]"
  have run: "?run = (fst ?run, snd ?run)" and good: "?good = (fst ?good, snd ?good)"
    by simp_all
  have ev: "CallUpdateParents (inverted sample_inversion) \<in> set (snd ?run)" by code_simp
  have resp: "update_parents ?env (inverted sample_inversion) =
      Inr (0, inverted sample_inversion)" by (simp add: sample_env_def)
  have mode: "\<not> truthy_str (osc_file sample_args)" "print_osc sample_args \<noteq> Some True"
    by (simp_all add: sample_args_def truthy_str_def)
  have cap: "get_changeset_max_size ?env = Inr 0" by simp
  have size: "diff_size (inverted sample_inversion) = 1" by code_simp
  from main_upload_within_cap [OF run] ev resp mode cap size
  have "fst ?run = Return (- 1) \<and> Print (MsgTooBig 1 0) \<in> set (snd ?run) \<and>
      (\<forall>x c t. CallUploadDiff x c t \<notin> set (snd ?run))"
    by (metis (no_types, lifting) of_nat_1 order_refl zero_less_one)
  moreover have "CallUploadDiff (inverted sample_inversion) ''undo'' ?tags \<in> set (snd ?good)"
    by code_simp
  with main_upload_within_cap [OF good]
  have "\<exists>cap. get_changeset_max_size sample_env = Inr cap \<and>
      int (diff_size (inverted sample_inversion)) \<le> cap" by blast
  then have "int (diff_size (inverted sample_inversion)) \<le> 10"
    by (simp add: sample_env_def)
  ultimately show ?thesis by simp
qed

text \<open>
  C10. Take any run of \<^verbatim>\<open>main\<close> in which \<^verbatim>\<open>upload_diff\<close> was called and gave a changeset
  id, while no discussion text was supplied (\<^verbatim>\<open>discussion\<close> is \<^verbatim>\<open>None\<close>). The first thing
  \<^verbatim>\<open>main\<close> does after the upload is to strip the discussion text, with no check for
  \<^verbatim>\<open>None\<close>: the run raises \<^verbatim>\<open>AttributeError\<close> with the upload as its last event, and the
  wrapper \<^verbatim>\<open>main_timer\<close> prints the traceback and exits with -2.
\<close>

theorem main_upload_without_discussion:
  assumes "main cfg env a = (fl, tr)" and "CallUploadDiff x c t \<in> set tr"
    and "upload_diff env x c t = Inr (Some n)" and "n \<noteq> 0" and "discussion a = None"
  shows "fl = Raise AttributeError \<and> last tr = CallUploadDiff x c t \<and>
    main_timer (main cfg env a) =
      (- 2, tr @ [Print (MsgTraceback AttributeError), Print MsgTotalTime])"
proof -
  from assms(1) have "fl = Raise AttributeError \<and> last tr = CallUploadDiff x c t"
  proof (cases rule: main_stages)
    case (startup fl0)
    with assms(2) show ?thesis by force
  next
    case (download ids user tr0 fl1 tr1)
    with assms(2) show ?thesis by force
  next
    case (generate ids user tr0 diffs tr1 fl2 tr2)
    with assms(2) show ?thesis by force
  next
    case (finish ids user tr0 diffs tr1 ivn tr2 tr3)
    from finish(5-8) assms(2) have ev: "CallUploadDiff x c t \<in> set tr3" by force
    from ev have "tr3 \<noteq> []" by auto
    with finish_upload_without_discussion [OF finish(4) ev assms(3-5)] finish(5)
    show ?thesis by simp
  qed
  with assms(1) show ?thesis by simp
qed

theorem main_upload_without_discussion_witness:
  "discussion (sample_args\<lparr>discussion := None\<rparr>) = None \<and>
   fst (main sample_config sample_env (sample_args\<lparr>discussion := None\<rparr>))
     = Raise AttributeError \<and>
   fst (main_timer (main sample_config sample_env (sample_args\<lparr>discussion := None\<rparr>))) = - 2 \<and>
   upload_diff sample_env (inverted sample_inversion) ''undo''
     [(''changesets_count'', IntTag 151), (''created_by'', StrTag ''revert''),
      (''website'', StrTag ''example.org''),
      (''id'', StrTag ''https://www.openstreetmap.org/changeset/123'')] = Inr (Some 77)"
proof -
  let ?args = "sample_args\<lparr>discussion := None\<rparr>"
  let ?run = "main sample_config sample_env ?args"
  let ?tags = "[(''changesets_count'', IntTag 151), (''created_by'', StrTag ''revert''),
     (''website'', StrTag ''example.org''),
     (''id'', StrTag ''https://www.openstreetmap.org/changeset/123'')]"
  have run: "?run = (fst ?run, snd ?run)" by simp
  have ev: "CallUploadDiff (inverted sample_inversion) ''undo'' ?tags \<in> set (snd ?run)"
    by code_simp
  have resp: "upload_diff sample_env (inverted sample_inversion) ''undo'' ?tags = Inr (Some 77)"
    by (simp add: sample_env_def)
  have none: "discussion ?args = None" by simp
  from main_upload_without_discussion [OF run ev resp _ none] resp none
  show ?thesis by simp
qed

lemma main_startup:
  assumes "main cfg env a = (fl, tr)" and "startup cfg env a = (fl0, tr0)"
  shows "(\<forall>ev\<in>set tr0. stage ev = 0) \<and>
    (stopped fl0 fl \<and> tr = tr0 \<or>
     (\<exists>ids user rest. fl0 = Next (ids, user) \<and> tr = tr0 @ rest \<and>
        (\<forall>ev\<in>set rest. stage ev \<noteq> 0)))"
  using assms(1)
proof (cases rule: main_stages)
  case (startup fl0')
  with assms(2) show ?thesis by simp
next
  case (download ids user tr0' fl1 tr1)
  with assms(2) show ?thesis by force
next
  case (generate ids user tr0' diffs tr1 fl2 tr2)
  with assms(2) show ?thesis by force
next
  case (finish ids user tr0' diffs tr1 ivn tr2 tr3)
  with assms(2) show ?thesis by force
qed

lemma main_limits_stop:
  assumes "main cfg env a = (fl, tr)" and "CallGetAuthorizedUser \<in> set tr"
    and "get_authorized_user env = Inr user"
    and "check_limits cfg (changesets_count user) (is_osm_moderator cfg (roles user))
      (length (sort (remdups (normalise (changeset_ids a))))) = (Return c, trl)"
  shows "fl = Return c \<and> (\<exists>before. tr = before @ trl) \<and> (\<forall>ev\<in>set tr. stage ev = 0)"
proof -
  obtain fl0 tr0 where st: "startup cfg env a = (fl0, tr0)" by (cases "startup cfg env a")
  note split = main_startup [OF assms(1) st]
  from split assms(2) have "CallGetAuthorizedUser \<in> set tr0" by force
  from startup_limits [OF st this assms(3)] assms(4)
  have fl0: "fl0 = Return c" and tr0: "\<exists>before. tr0 = before @ trl" by auto
  with split show ?thesis by auto
qed

text \<open>
  C8, as the code has it. Take any run of \<^verbatim>\<open>main\<close> in which the user was fetched, with the
  limit \<open>l\<close> that the table of the configuration gives for the user's number of edits.
  If \<open>l\<close> is 0 and the table has a positive threshold \<open>m\<close>, the run reports that \<open>m\<close>
  edits are needed and returns -1. If \<open>l\<close> is not 0 and smaller than the number of distinct
  changeset ids, the run reports the limit and returns -1. In both cases nothing was
  downloaded, generated or uploaded. If a changeset that the run fetched was authored by a
  moderator, while the user is no moderator and has fewer edits than
  \<^verbatim>\<open>CHANGESETS_LIMIT_MODERATOR_REVERT\<close>, the run reports it as its last event and returns -1,
  before any revert is generated or uploaded. The author of a changeset is looked up for
  such users only.
\<close>

theorem main_policy_limits:
  assumes "main cfg env a = (fl, tr)" and "CallGetAuthorizedUser \<in> set tr"
    and "get_authorized_user env = Inr user"
    and "changesets_limit_config cfg (is_osm_moderator cfg (roles user)) = Inr table"
    and "changesets_limit table (changesets_count user) = Inr l"
  shows "(\<forall>m. l = 0 \<and> py_min (filter (\<lambda>k. k > 0) (map fst table)) = Inr m \<longrightarrow>
       fl = Return (- 1) \<and> last tr = Print (MsgNeedEdits m) \<and> (\<forall>ev\<in>set tr. stage ev = 0)) \<and>
    (l \<noteq> 0 \<and> l < int (length (remdups (normalise (changeset_ids a)))) \<longrightarrow>
       fl = Return (- 1) \<and> Print (MsgSafetyLimit l) \<in> set tr \<and> (\<forall>ev\<in>set tr. stage ev = 0)) \<and>
    (\<forall>i c cu. CallGetChangeset i \<in> set tr \<and> get_changeset env i = Inr c \<and>
       get_user env (cs_uid c) = Inr (Some cu) \<and> is_osm_moderator cfg (roles cu) \<and>
       \<not> is_osm_moderator cfg (roles user) \<and>
       changesets_count user < CHANGESETS_LIMIT_MODERATOR_REVERT cfg \<longrightarrow>
       fl = Return (- 1) \<and> last tr = Print MsgModeratorsChangesets \<and>
       (\<forall>ev\<in>set tr. stage ev \<le> 1)) \<and>
    (\<forall>u. CallGetUser u \<in> set tr \<longrightarrow>
       changesets_count user < CHANGESETS_LIMIT_MODERATOR_REVERT cfg \<and>
       \<not> is_osm_moderator cfg (roles user))"
proof (intro conjI allI impI)
  fix m assume "l = 0 \<and> py_min (filter (\<lambda>k. k > 0) (map fst table)) = Inr m"
  then have "l = 0" and m: "py_min (filter (\<lambda>k. k > 0) (map fst table)) = Inr m" by simp_all
  from check_limits_too_few_edits [OF assms(4) assms(5) [unfolded \<open>l = 0\<close>] m]
  have "check_limits cfg (changesets_count user) (is_osm_moderator cfg (roles user))
      (length (sort (remdups (normalise (changeset_ids a))))) =
      (Return (- 1), [Print (MsgNeedEdits m)])" .
  from main_limits_stop [OF assms(1-3) this]
  show "fl = Return (- 1)" "last tr = Print (MsgNeedEdits m)" "\<forall>ev\<in>set tr. stage ev = 0"
    by auto
next
  assume "l \<noteq> 0 \<and> l < int (length (remdups (normalise (changeset_ids a))))"
  then have "l \<noteq> 0" "l < int (length (sort (remdups (normalise (changeset_ids a)))))"
    by simp_all
  from check_limits_too_many [OF assms(4,5) this] obtain more where
    "check_limits cfg (changesets_count user) (is_osm_moderator cfg (roles user))
      (length (sort (remdups (normalise (changeset_ids a))))) =
      (Return (- 1), Print (MsgSafetyLimit l) # more)" by blast
  from main_limits_stop [OF assms(1-3) this]
  show "fl = Return (- 1)" "Print (MsgSafetyLimit l) \<in> set tr"
    "\<forall>ev\<in>set tr. stage ev = 0"
    by auto
next
  fix i c cu
  assume "CallGetChangeset i \<in> set tr \<and> get_changeset env i = Inr c \<and>
       get_user env (cs_uid c) = Inr (Some cu) \<and> is_osm_moderator cfg (roles cu) \<and>
       \<not> is_osm_moderator cfg (roles user) \<and>
       changesets_count user < CHANGESETS_LIMIT_MODERATOR_REVERT cfg"
  then have ev: "CallGetChangeset i \<in> set tr" and c: "get_changeset env i = Inr c"
    and cu: "get_user env (cs_uid c) = Inr (Some cu)" "is_osm_moderator cfg (roles cu)"
    and user: "\<not> is_osm_moderator cfg (roles user)"
      "changesets_count user < CHANGESETS_LIMIT_MODERATOR_REVERT cfg"
    by simp_all
  from assms(1) have "fl = Return (- 1) \<and> last tr = Print MsgModeratorsChangesets \<and>
       (\<forall>ev\<in>set tr. stage ev \<le> 1)"
  proof (cases rule: main_stages)
    case (startup fl0)
    with ev show ?thesis by force
  next
    case (download ids user' tr0 fl1 tr1)
    from startup_Next [OF download(1)] assms(3) have same: "user' = user" by simp
    from download(4,5) ev have ev1: "CallGetChangeset i \<in> set tr1" by force
    from download_changesets_moderator [OF download(2) [unfolded same] ev1 c cu user(2,1)]
    have "fl1 = Return (- 1)" "last tr1 = Print MsgModeratorsChangesets" by simp_all
    with download ev1 show ?thesis by (auto simp: last_append_mem)
  next
    case (generate ids user' tr0 diffs tr1 fl2 tr2)
    from startup_Next [OF generate(1)] assms(3) have same: "user' = user" by simp
    from generate(5,6,8) ev have ev1: "CallGetChangeset i \<in> set tr1" by force
    from download_changesets_moderator [OF generate(2) [unfolded same] ev1 c cu user(2,1)]
    show ?thesis by simp
  next
    case (finish ids user' tr0 diffs tr1 ivn tr2 tr3)
    from startup_Next [OF finish(1)] assms(3) have same: "user' = user" by simp
    from finish(5,6,8,9) ev have ev1: "CallGetChangeset i \<in> set tr1" by force
    from download_changesets_moderator [OF finish(2) [unfolded same] ev1 c cu user(2,1)]
    show ?thesis by simp
  qed
  then show "fl = Return (- 1)" "last tr = Print MsgModeratorsChangesets"
    "\<forall>ev\<in>set tr. stage ev \<le> 1" by simp_all
next
  fix u assume ev: "CallGetUser u \<in> set tr"
  from assms(1) have "changesets_count user < CHANGESETS_LIMIT_MODERATOR_REVERT cfg \<and>
       \<not> is_osm_moderator cfg (roles user)"
  proof (cases rule: main_stages)
    case (startup fl0)
    with ev show ?thesis by force
  next
    case (download ids user' tr0 fl1 tr1)
    from startup_Next [OF download(1)] assms(3) have same: "user' = user" by simp
    from download(4,5) ev have "CallGetUser u \<in> set tr1" by force
    from download_changesets_author_lookup [OF download(2) [unfolded same] this]
    show ?thesis .
  next
    case (generate ids user' tr0 diffs tr1 fl2 tr2)
    from startup_Next [OF generate(1)] assms(3) have same: "user' = user" by simp
    from generate(5,6,8) ev have "CallGetUser u \<in> set tr1" by force
    from download_changesets_author_lookup [OF generate(2) [unfolded same] this]
    show ?thesis .
  next
    case (finish ids user' tr0 diffs tr1 ivn tr2 tr3)
    from startup_Next [OF finish(1)] assms(3) have same: "user' = user" by simp
    from finish(5,6,8,9) ev have "CallGetUser u \<in> set tr1" by force
    from download_changesets_author_lookup [OF finish(2) [unfolded same] this]
    show ?thesis .
  qed
  then show "changesets_count user < CHANGESETS_LIMIT_MODERATOR_REVERT cfg"
    "\<not> is_osm_moderator cfg (roles user)" by simp_all
qed

theorem main_policy_limits_witness:
  "fst (main sample_config
          (sample_env\<lparr>get_authorized_user := Inr (newcomer\<lparr>changesets_count := 5\<rparr>)\<rparr>)
          sample_args) = Return (- 1) \<and>
   last (snd (main sample_config
          (sample_env\<lparr>get_authorized_user := Inr (newcomer\<lparr>changesets_count := 5\<rparr>)\<rparr>)
          sample_args)) = Print (MsgNeedEdits 10) \<and>
   fst (main sample_config (sample_env\<lparr>get_authorized_user := Inr newcomer\<rparr>)
          (sample_args\<lparr>changeset_ids := [IntArg 123, StrArg '' 45 '']\<rparr>)) = Return (- 1) \<and>
   Print (MsgSafetyLimit 1) \<in> set (snd (main sample_config
          (sample_env\<lparr>get_authorized_user := Inr newcomer\<rparr>)
          (sample_args\<lparr>changeset_ids := [IntArg 123, StrArg '' 45 '']\<rparr>))) \<and>
   fst (main sample_config (sample_env\<lparr>get_authorized_user := Inr newcomer\<rparr>) sample_args)
     = Return (- 1) \<and>
   last (snd (main sample_config (sample_env\<lparr>get_authorized_user := Inr newcomer\<rparr>)
          sample_args)) = Print MsgModeratorsChangesets"
proof -
  let ?few = "newcomer\<lparr>changesets_count := 5\<rparr>"
  let ?env5 = "sample_env\<lparr>get_authorized_user := Inr ?few\<rparr>"
  let ?env = "sample_env\<lparr>get_authorized_user := Inr newcomer\<rparr>"
  let ?two = "sample_args\<lparr>changeset_ids := [IntArg 123, StrArg '' 45 '']\<rparr>"
  let ?table = "[(0, 0), (10, 1), (100, 3)] :: (int \<times> int) list"
  let ?r1 = "main sample_config ?env5 sample_args"
  let ?r2 = "main sample_config ?env ?two"
  let ?r3 = "main sample_config ?env sample_args"
  have r1: "?r1 = (fst ?r1, snd ?r1)" and r2: "?r2 = (fst ?r2, snd ?r2)"
    and r3: "?r3 = (fst ?r3, snd ?r3)" by simp_all
  have e1: "CallGetAuthorizedUser \<in> set (snd ?r1)" by code_simp
  have e2: "CallGetAuthorizedUser \<in> set (snd ?r2)" by code_simp
  have e3: "CallGetAuthorizedUser \<in> set (snd ?r3)" by code_simp
  have u1: "get_authorized_user ?env5 = Inr ?few" by simp
  have u2: "get_authorized_user ?env = Inr newcomer" by simp
  have t1: "changesets_limit_config sample_config (is_osm_moderator sample_config (roles ?few))
      = Inr ?table" by code_simp
  have t2: "changesets_limit_config sample_config
      (is_osm_moderator sample_config (roles newcomer)) = Inr ?table" by code_simp
  have l1: "changesets_limit ?table (changesets_count ?few) = Inr 0" by code_simp
  have l2: "changesets_limit ?table (changesets_count newcomer) = Inr 1" by code_simp
  have m: "py_min (filter (\<lambda>k. k > 0) (map fst ?table)) = Inr 10" by code_simp
  have n: "(1::int) < int (length (remdups (normalise (changeset_ids ?two))))" by code_simp
  have g: "CallGetChangeset 123 \<in> set (snd ?r3)" by code_simp
  have c: "get_changeset ?env 123 = Inr sample_changeset"
    "get_user ?env (cs_uid sample_changeset) = Inr (Some moderator)"
    by (simp_all add: sample_env_def)
  have roles: "is_osm_moderator sample_config (roles moderator)"
    "\<not> is_osm_moderator sample_config (roles newcomer)"
    "changesets_count newcomer < CHANGESETS_LIMIT_MODERATOR_REVERT sample_config"
    by code_simp+
  from main_policy_limits [OF r1 e1 u1 t1 l1] m
  have "fst ?r1 = Return (- 1)" "last (snd ?r1) = Print (MsgNeedEdits 10)" by simp_all
  moreover from main_policy_limits [OF r2 e2 u2 t2 l2] n
  have "fst ?r2 = Return (- 1)" "Print (MsgSafetyLimit 1) \<in> set (snd ?r2)" by simp_all
  moreover from main_policy_limits [OF r3 e3 u2 t2 l2] g c roles
  have "fst ?r3 = Return (- 1)" "last (snd ?r3) = Print MsgModeratorsChangesets" by blast+
  ultimately show ?thesis by simp
qed

text \<open>
  C8 as stated fails: \<open>alice\<close> is no moderator, the changeset she targets was authored by a
  moderator, and she has at least \<^verbatim>\<open>CHANGESETS_LIMIT_MODERATOR_REVERT\<close> edits; the author is
  not looked up and the run uploads the revert and returns 0.
\<close>

theorem main_moderator_changeset_counterexample:
  "get_authorized_user sample_env = Inr alice \<and>
   \<not> is_osm_moderator sample_config (roles alice) \<and>
   CallGetChangeset 123 \<in> set (snd (main sample_config sample_env sample_args)) \<and>
   get_changeset sample_env 123 = Inr sample_changeset \<and>
   get_user sample_env (cs_uid sample_changeset) = Inr (Some moderator) \<and>
   is_osm_moderator sample_config (roles moderator) \<and>
   fst (main sample_config sample_env sample_args) = Return 0 \<and>
   Print MsgModeratorsChangesets \<notin> set (snd (main sample_config sample_env sample_args)) \<and>
   list_ex (\<lambda>ev. stage ev = 3 \<and> is_network_call ev)
     (snd (main sample_config sample_env sample_args))"
  by code_simp





end
